theory Spec2Isabelle
  imports Complex_Main "HOL-Library.Word"
begin

unbundle bit_operations_syntax

section \<open>Shared context model\<close>

text \<open>
  \<open>packages/types/src/index.ts\<close>: \<open>RequestType\<close> and the fields of
  \<open>BaseRequestContext\<close> that the traffic-control components read or write.
  Metadata values are JavaScript values; the ones the components store are strings
  or \<open>undefined\<close>.
\<close>

datatype RequestType = XHR | FETCH | WEBSOCKET

datatype jsval = JString string | JUndefined | JNumber int

record RequestContext =
  ctx_type :: RequestType
  url :: string
  metadata :: "(string \<rightharpoonup> jsval) option"

text \<open>JavaScript array indexing: \<open>undefined\<close> (here \<open>None\<close>) out of range.\<close>

definition js_index :: "'a list \<Rightarrow> nat \<Rightarrow> 'a option" where
  "js_index xs i = (if i < length xs then Some (xs ! i) else None)"

section \<open>JavaScript numbers\<close>

text \<open>
  A JavaScript number is an IEEE-754 binary64 value, and each of \<open>+\<close>, \<open>-\<close>,
  \<open>*\<close>, \<open>/\<close> returns the exact result rounded to the nearest such value, ties
  to the even significand. \<open>dbl\<close> is that rounding on the reals: a nonzero \<open>x\<close>
  with \<open>2^e \<le> |x| < 2^(e+1)\<close> is rounded to a multiple of \<open>2^(e-52)\<close>, and below
  \<open>2^-1022\<close> the spacing stays \<open>2^-1074\<close>. Overflow to \<open>Infinity\<close> (magnitudes
  from \<open>2^1024\<close>) and \<open>NaN\<close> are outside the model; the quantities below are
  weights, response times, millisecond clock readings and request counts. Integers
  (clock readings, list lengths) are exact as doubles up to \<open>2^53\<close> and are kept
  as integers.
\<close>

definition binade :: "real \<Rightarrow> int" where
  "binade x = max (- 1022) \<lfloor>log 2 \<bar>x\<bar>\<rfloor>"

definition quantum :: "real \<Rightarrow> real" where
  "quantum x = 2 powr real_of_int (binade x - 52)"

definition roundHalfEven :: "real \<Rightarrow> int" where
  "roundHalfEven z =
     (let f = \<lfloor>z\<rfloor>
      in if z - real_of_int f < 1 / 2 then f
         else if z - real_of_int f > 1 / 2 then f + 1
         else if even f then f else f + 1)"

definition dbl :: "real \<Rightarrow> real" where
  "dbl x = (if x = 0 then 0 else real_of_int (roundHalfEven (x / quantum x)) * quantum x)"

section \<open>Load balancer (\<open>packages/features/src/LoadBalancer.ts\<close>)\<close>

text \<open>
  \<open>enabled\<close> and \<open>healthy\<close> are read only through their truthiness, so they
  are booleans here; the optional numeric fields keep their optionality.
\<close>

record BackendServer =
  srv_url :: string
  srv_weight :: "real option"
  srv_enabled :: bool
  srv_healthy :: bool
  srv_maxFails :: "int option"
  srv_currentFails :: "int option"
  srv_failTimeout :: "int option"
  srv_lastFailTime :: "int option"

datatype BalanceStrategy =
  ROUND_ROBIN | WEIGHTED_ROUND_ROBIN | LEAST_CONNECTIONS | IP_HASH | RANDOM | FASTEST

record LoadBalancer =
  servers :: "BackendServer list"
  strategy :: BalanceStrategy
  currentIndex :: nat
  connectionCounts :: "string \<rightharpoonup> int"
  responseTimes :: "string \<rightharpoonup> real list"

definition newLoadBalancer :: "BalanceStrategy \<Rightarrow> LoadBalancer" where
  "newLoadBalancer st =
     \<lparr>servers = [], strategy = st, currentIndex = 0,
      connectionCounts = Map.empty, responseTimes = Map.empty\<rparr>"

text \<open>
  \<open>addServer\<close> appends the server (the caller's fields override the defaults, which
  the record already carries) and initialises its two per-url tables.
\<close>

definition addServer :: "BackendServer \<Rightarrow> LoadBalancer \<Rightarrow> LoadBalancer" where
  "addServer s lb =
     lb\<lparr>servers := servers lb @ [s],
        connectionCounts := (connectionCounts lb)(srv_url s \<mapsto> 0),
        responseTimes := (responseTimes lb)(srv_url s \<mapsto> [])\<rparr>"

definition addServers :: "BackendServer list \<Rightarrow> LoadBalancer \<Rightarrow> LoadBalancer" where
  "addServers ss lb = foldl (\<lambda>l s. addServer s l) lb ss"

definition getHealthyServers :: "LoadBalancer \<Rightarrow> BackendServer list" where
  "getHealthyServers lb = filter (\<lambda>s. srv_enabled s \<and> srv_healthy s) (servers lb)"

text \<open>\<open>_roundRobin\<close>: read at \<open>currentIndex % length\<close>, then advance the index.\<close>

definition roundRobin ::
  "LoadBalancer \<Rightarrow> BackendServer list \<Rightarrow> BackendServer option \<times> LoadBalancer" where
  "roundRobin lb ss =
     ((if ss = [] then None else js_index ss (currentIndex lb mod length ss)),
      lb\<lparr>currentIndex := currentIndex lb + 1\<rparr>)"

text \<open>\<open>server.weight || 1\<close>: an absent or zero weight counts as 1.\<close>

definition weightOr1 :: "BackendServer \<Rightarrow> real" where
  "weightOr1 s = (case srv_weight s of None \<Rightarrow> 1 | Some w \<Rightarrow> if w = 0 then 1 else w)"

text \<open>The loop of \<open>_weightedRoundRobin\<close>: \<open>random -= server.weight || 1\<close>, rounded.\<close>

fun wrrWalk :: "real \<Rightarrow> BackendServer list \<Rightarrow> BackendServer option" where
  "wrrWalk random [] = None"
| "wrrWalk random (s # ss) =
     (let random' = dbl (random - weightOr1 s)
      in if random' \<le> 0 then Some s else wrrWalk random' ss)"

text \<open>
  \<open>_weightedRoundRobin\<close>; \<open>rnd\<close> is the value returned by \<open>Math.random()\<close>.
  The weights are summed left to right from 0, each sum rounded, and the product with
  \<open>rnd\<close> is rounded. When the loop falls through, \<open>servers[0]\<close> is returned.
\<close>

definition weightedRoundRobin :: "real \<Rightarrow> BackendServer list \<Rightarrow> BackendServer option" where
  "weightedRoundRobin rnd ss =
     (let totalWeight = foldl (\<lambda>sum s. dbl (sum + weightOr1 s)) 0 ss;
          random = dbl (rnd * totalWeight)
      in case wrrWalk random ss of Some s \<Rightarrow> Some s | None \<Rightarrow> js_index ss 0)"

text \<open>\<open>this.connectionCounts.get(url) || 0\<close>\<close>

definition connCount :: "LoadBalancer \<Rightarrow> string \<Rightarrow> int" where
  "connCount lb u = (case connectionCounts lb u of None \<Rightarrow> 0 | Some c \<Rightarrow> c)"

text \<open>
  \<open>Array.prototype.reduce\<close> without an initial value: the first element seeds the
  fold. On an empty array JavaScript throws; \<open>getNextServer\<close> never calls the
  strategies with one, and the model yields no server there.
\<close>

definition reduce1 :: "('a \<Rightarrow> 'a \<Rightarrow> 'a) \<Rightarrow> 'a list \<Rightarrow> 'a option" where
  "reduce1 f xs = (case xs of [] \<Rightarrow> None | x # rest \<Rightarrow> Some (foldl f x rest))"

definition leastConnections :: "LoadBalancer \<Rightarrow> BackendServer list \<Rightarrow> BackendServer option" where
  "leastConnections lb ss =
     reduce1 (\<lambda>m s. if connCount lb (srv_url s) < connCount lb (srv_url m) then s else m) ss"

text \<open>
  \<open>_hashCode\<close>: \<open>hash = (hash << 5) - hash + char; hash = hash & hash\<close>, a signed
  32-bit accumulator over the character codes.
\<close>

definition hashStep :: "32 word \<Rightarrow> char \<Rightarrow> 32 word" where
  "hashStep hash c = push_bit 5 hash - hash + of_nat (of_char c)"

definition hashCode :: "string \<Rightarrow> int" where
  "hashCode str = sint (foldl hashStep 0 str)"

text \<open>
  \<open>_ipHash\<close>: the client address is \<open>metadata.clientIp\<close> when that is a string,
  the url otherwise.
\<close>

definition clientKey :: "RequestContext \<Rightarrow> string" where
  "clientKey ctx =
     (case metadata ctx of
        None \<Rightarrow> url ctx
      | Some m \<Rightarrow> (case m ''clientIp'' of Some (JString ip) \<Rightarrow> ip | _ \<Rightarrow> url ctx))"

definition ipHash :: "BackendServer list \<Rightarrow> RequestContext \<Rightarrow> BackendServer option" where
  "ipHash ss ctx =
     (if ss = [] then None
      else js_index ss (nat (\<bar>hashCode (clientKey ctx)\<bar> mod int (length ss))))"

text \<open>
  \<open>_random\<close>: \<open>Math.floor(Math.random() * servers.length)\<close>. The product is
  taken exactly here; the code rounds it to a double before \<open>Math.floor\<close>.
\<close>

definition randomPick :: "real \<Rightarrow> BackendServer list \<Rightarrow> BackendServer option" where
  "randomPick rnd ss =
     (let index = \<lfloor>rnd * real (length ss)\<rfloor>
      in if index < 0 then None else js_index ss (nat index))"

text \<open>
  \<open>_getAverageResponseTime\<close>: \<open>Infinity\<close> (here \<open>None\<close>) for a server without
  samples; otherwise the samples summed left to right from 0, each sum rounded, and
  the quotient by their number, rounded.
\<close>

definition getAverageResponseTime :: "LoadBalancer \<Rightarrow> string \<Rightarrow> real option" where
  "getAverageResponseTime lb u =
     (let times = (case responseTimes lb u of None \<Rightarrow> [] | Some ts \<Rightarrow> ts)
      in if times = [] then None
         else Some (dbl (foldl (\<lambda>sum t. dbl (sum + t)) 0 times / real (length times))))"

fun ltInf :: "real option \<Rightarrow> real option \<Rightarrow> bool" where
  "ltInf (Some a) (Some b) = (a < b)"
| "ltInf (Some a) None = True"
| "ltInf None _ = False"

definition fastest :: "LoadBalancer \<Rightarrow> BackendServer list \<Rightarrow> BackendServer option" where
  "fastest lb ss =
     reduce1 (\<lambda>f s. if ltInf (getAverageResponseTime lb (srv_url s))
                              (getAverageResponseTime lb (srv_url f)) then s else f) ss"

text \<open>
  \<open>getNextServer\<close>. \<open>rnd\<close> is what \<open>Math.random()\<close> returns during the call (only
  two strategies read it). The result \<open>None\<close> is the absent server.
\<close>

definition getNextServer ::
  "real \<Rightarrow> RequestContext \<Rightarrow> LoadBalancer \<Rightarrow> BackendServer option \<times> LoadBalancer" where
  "getNextServer rnd ctx lb =
     (let availableServers = getHealthyServers lb
      in if length availableServers = 0 then (None, lb)
         else (case strategy lb of
                 ROUND_ROBIN \<Rightarrow> roundRobin lb availableServers
               | WEIGHTED_ROUND_ROBIN \<Rightarrow> (weightedRoundRobin rnd availableServers, lb)
               | LEAST_CONNECTIONS \<Rightarrow> (leastConnections lb availableServers, lb)
               | IP_HASH \<Rightarrow> (ipHash availableServers ctx, lb)
               | RANDOM \<Rightarrow> (randomPick rnd availableServers, lb)
               | FASTEST \<Rightarrow> (fastest lb availableServers, lb)))"

section \<open>Load balancer: selection stays inside the healthy set\<close>

lemma js_index_mem: "js_index xs i = Some x \<Longrightarrow> x \<in> set xs"
  by (auto simp: js_index_def split: if_splits)

lemma js_index_Some: "i < length xs \<Longrightarrow> \<exists>x. js_index xs i = Some x"
  by (simp add: js_index_def)

lemma wrrWalk_mem: "wrrWalk r ss = Some s \<Longrightarrow> s \<in> set ss"
  by (induction ss arbitrary: r) (auto simp: Let_def split: if_splits)

lemma foldl_pick_mem:
  assumes "\<And>a b. f a b = a \<or> f a b = b"
  shows "foldl f x xs \<in> insert x (set xs)"
  using assms
proof (induction xs arbitrary: x)
  case Nil
  then show ?case by simp
next
  case (Cons y ys)
  have "f x y = x \<or> f x y = y" by (rule Cons.prems)
  moreover have "foldl f (f x y) ys \<in> insert (f x y) (set ys)"
    by (rule Cons.IH) (rule Cons.prems)
  ultimately show ?case by auto
qed

lemma reduce1_pick:
  assumes "\<And>a b. f a b = a \<or> f a b = b" and "xs \<noteq> []"
  shows "\<exists>x \<in> set xs. reduce1 f xs = Some x"
proof (cases xs)
  case Nil
  with assms(2) show ?thesis by simp
next
  case (Cons y ys)
  have "foldl f y ys \<in> insert y (set ys)"
    by (rule foldl_pick_mem) (rule assms(1))
  with Cons show ?thesis by (simp add: reduce1_def)
qed

lemma roundRobin_pick:
  "ss \<noteq> [] \<Longrightarrow> \<exists>s \<in> set ss. fst (roundRobin lb ss) = Some s"
  by (simp add: roundRobin_def js_index_def)

lemma weightedRoundRobin_pick:
  "ss \<noteq> [] \<Longrightarrow> \<exists>s \<in> set ss. weightedRoundRobin rnd ss = Some s"
  by (cases ss)
     (auto simp: weightedRoundRobin_def Let_def js_index_def
           split: option.splits dest: wrrWalk_mem)

lemma ipHash_pick:
  assumes "ss \<noteq> []"
  shows "\<exists>s \<in> set ss. ipHash ss ctx = Some s"
proof -
  let ?i = "nat (\<bar>hashCode (clientKey ctx)\<bar> mod int (length ss))"
  from assms have "0 < int (length ss)" by simp
  then have "\<bar>hashCode (clientKey ctx)\<bar> mod int (length ss) < int (length ss)"
    by (rule pos_mod_bound)
  moreover from \<open>0 < int (length ss)\<close>
  have "0 \<le> \<bar>hashCode (clientKey ctx)\<bar> mod int (length ss)"
    by (rule pos_mod_sign)
  ultimately have "?i < length ss" by linarith
  with assms show ?thesis by (simp add: ipHash_def js_index_def)
qed

lemma randomPick_pick:
  assumes "ss \<noteq> []" and "0 \<le> rnd" and "rnd < 1"
  shows "\<exists>s \<in> set ss. randomPick rnd ss = Some s"
proof -
  let ?n = "real (length ss)"
  from assms(1) have n: "0 < ?n" by simp
  with assms(2) have lo: "0 \<le> rnd * ?n" by simp
  from n assms(3) have hi: "rnd * ?n < ?n" by simp
  from lo have flo: "0 \<le> \<lfloor>rnd * ?n\<rfloor>" by simp
  from hi have "\<lfloor>rnd * ?n\<rfloor> < int (length ss)" by (simp add: floor_less_iff)
  with flo have "nat \<lfloor>rnd * ?n\<rfloor> < length ss" by linarith
  with flo show ?thesis by (simp add: randomPick_def Let_def js_index_def)
qed

lemma getNextServer_pick:
  assumes "getHealthyServers lb \<noteq> []" and "0 \<le> rnd" and "rnd < 1"
  shows "\<exists>s \<in> set (getHealthyServers lb). fst (getNextServer rnd ctx lb) = Some s"
proof (cases "strategy lb")
  case ROUND_ROBIN
  with assms(1) roundRobin_pick [of "getHealthyServers lb" lb]
  show ?thesis by (simp add: getNextServer_def Let_def)
next
  case WEIGHTED_ROUND_ROBIN
  with assms(1) weightedRoundRobin_pick [of "getHealthyServers lb" rnd]
  show ?thesis by (simp add: getNextServer_def Let_def)
next
  case LEAST_CONNECTIONS
  have "\<exists>s \<in> set (getHealthyServers lb). leastConnections lb (getHealthyServers lb) = Some s"
    unfolding leastConnections_def by (rule reduce1_pick) (auto simp: assms(1))
  with LEAST_CONNECTIONS assms(1) show ?thesis by (simp add: getNextServer_def Let_def)
next
  case IP_HASH
  with assms(1) ipHash_pick [of "getHealthyServers lb" ctx]
  show ?thesis by (simp add: getNextServer_def Let_def)
next
  case RANDOM
  with assms randomPick_pick [of "getHealthyServers lb" rnd]
  show ?thesis by (simp add: getNextServer_def Let_def)
next
  case FASTEST
  have "\<exists>s \<in> set (getHealthyServers lb). fastest lb (getHealthyServers lb) = Some s"
    unfolding fastest_def by (rule reduce1_pick) (auto simp: assms(1))
  with FASTEST assms(1) show ?thesis by (simp add: getNextServer_def Let_def)
qed

lemma getNextServer_empty:
  "getHealthyServers lb = [] \<Longrightarrow> getNextServer rnd ctx lb = (None, lb)"
  by (simp add: getNextServer_def)

text \<open>Concrete servers and balancers used to exercise the theorems.\<close>

definition mkServer :: "string \<Rightarrow> bool \<Rightarrow> bool \<Rightarrow> BackendServer" where
  "mkServer u en he =
     \<lparr>srv_url = u, srv_weight = Some 1, srv_enabled = en, srv_healthy = he,
      srv_maxFails = Some 3, srv_currentFails = Some 0, srv_failTimeout = Some 10000,
      srv_lastFailTime = None\<rparr>"

definition srvA :: BackendServer where "srvA = mkServer ''http://a'' True True"
definition srvB :: BackendServer where "srvB = mkServer ''http://b'' True True"
definition srvC :: BackendServer where "srvC = mkServer ''http://c'' True True"
definition srvDown :: BackendServer where "srvDown = mkServer ''http://d'' True False"

definition ctx0 :: RequestContext where
  "ctx0 = \<lparr>ctx_type = FETCH, url = ''/api/v1/users'', metadata = None\<rparr>"

definition lbABC :: LoadBalancer where
  "lbABC = addServers [srvA, srvB, srvC] (newLoadBalancer ROUND_ROBIN)"

definition lbRandom :: LoadBalancer where
  "lbRandom = addServers [srvDown, srvA] (newLoadBalancer RANDOM)"

text \<open>
  C7. \<open>getNextServer\<close> returns the absent result exactly when no server is both
  enabled and healthy, and a server it returns is one of the balancer's servers that
  is enabled and healthy, whatever the strategy. \<open>rnd\<close> ranges over the values
  \<open>Math.random()\<close> can return.
\<close>

theorem getNextServer_absent_iff_none_healthy:
  assumes "0 \<le> rnd" and "rnd < 1"
  shows "(fst (getNextServer rnd ctx lb) = None
            \<longleftrightarrow> \<not> (\<exists>s \<in> set (servers lb). srv_enabled s \<and> srv_healthy s))
         \<and> (\<forall>s. fst (getNextServer rnd ctx lb) = Some s
                \<longrightarrow> s \<in> set (servers lb) \<and> srv_enabled s \<and> srv_healthy s
                    \<and> s \<in> set (getHealthyServers lb))"
proof (cases "getHealthyServers lb = []")
  case True
  then have "\<not> (\<exists>s \<in> set (servers lb). srv_enabled s \<and> srv_healthy s)"
    by (auto simp: getHealthyServers_def filter_empty_conv)
  with True show ?thesis by (simp add: getNextServer_empty)
next
  case False
  from getNextServer_pick [OF False assms]
  obtain s where s: "s \<in> set (getHealthyServers lb)"
    and r: "fst (getNextServer rnd ctx lb) = Some s" by blast
  from s have "s \<in> set (servers lb) \<and> srv_enabled s \<and> srv_healthy s"
    by (simp add: getHealthyServers_def)
  with s r show ?thesis by auto
qed

theorem getNextServer_absent_iff_none_healthy_witness:
  "(0::real) \<le> 1 / 2 \<and> (1::real) / 2 < 1
   \<and> fst (getNextServer (1 / 2) ctx0 lbRandom) = Some srvA
   \<and> srvA \<in> set (servers lbRandom) \<and> srv_enabled srvA \<and> srv_healthy srvA
   \<and> fst (getNextServer (1 / 2) ctx0 (newLoadBalancer RANDOM)) = None"
proof -
  have h0: "(0::real) \<le> 1 / 2" and h1: "(1::real) / 2 < 1" by simp_all
  have r: "fst (getNextServer (1 / 2) ctx0 lbRandom) = Some srvA"
    by (simp add: getNextServer_def getHealthyServers_def lbRandom_def addServers_def
        addServer_def newLoadBalancer_def srvA_def srvDown_def mkServer_def randomPick_def
        js_index_def)
  have e: "fst (getNextServer (1 / 2) ctx0 (newLoadBalancer RANDOM)) = None"
    by (simp add: getNextServer_def getHealthyServers_def newLoadBalancer_def)
  from getNextServer_absent_iff_none_healthy [OF h0 h1, of ctx0 lbRandom] r
  have "srvA \<in> set (servers lbRandom) \<and> srv_enabled srvA \<and> srv_healthy srvA" by simp
  with h0 h1 r e show ?thesis by simp
qed

section \<open>Load balancer: round robin\<close>

text \<open>\<open>n\<close> consecutive calls of \<open>getNextServer\<close>, collecting what each returns.\<close>

primrec selections ::
  "nat \<Rightarrow> real \<Rightarrow> RequestContext \<Rightarrow> LoadBalancer \<Rightarrow> BackendServer option list" where
  "selections 0 rnd ctx lb = []"
| "selections (Suc n) rnd ctx lb =
     (case getNextServer rnd ctx lb of (s, lb') \<Rightarrow> s # selections n rnd ctx lb')"

lemma getHealthyServers_currentIndex [simp]:
  "getHealthyServers (lb\<lparr>currentIndex := k\<rparr>) = getHealthyServers lb"
  by (simp add: getHealthyServers_def)

lemma getNextServer_roundRobin:
  assumes "strategy lb = ROUND_ROBIN" and "getHealthyServers lb \<noteq> []"
  shows "getNextServer rnd ctx lb =
           (Some (getHealthyServers lb ! (currentIndex lb mod length (getHealthyServers lb))),
            lb\<lparr>currentIndex := currentIndex lb + 1\<rparr>)"
  using assms by (simp add: getNextServer_def roundRobin_def js_index_def Let_def)

lemma selections_roundRobin:
  assumes "strategy lb = ROUND_ROBIN" and "getHealthyServers lb = ss" and "ss \<noteq> []"
  shows "selections n rnd ctx lb =
           map (\<lambda>k. Some (ss ! ((currentIndex lb + k) mod length ss))) [0..<n]"
  using assms
proof (induction n arbitrary: lb)
  case 0
  then show ?case by simp
next
  case (Suc n)
  let ?lb' = "lb\<lparr>currentIndex := currentIndex lb + 1\<rparr>"
  from Suc.prems have step: "getNextServer rnd ctx lb =
      (Some (ss ! (currentIndex lb mod length ss)), ?lb')"
    using getNextServer_roundRobin [of lb rnd ctx] by simp
  have "selections n rnd ctx ?lb' =
      map (\<lambda>k. Some (ss ! ((currentIndex ?lb' + k) mod length ss))) [0..<n]"
    by (rule Suc.IH) (use Suc.prems in simp_all)
  then have rest: "selections n rnd ctx ?lb' =
      map (\<lambda>k. Some (ss ! ((currentIndex lb + Suc k) mod length ss))) [0..<n]"
    by simp
  have "[0..<Suc n] = 0 # map Suc [0..<n]"
    by (simp add: upt_conv_Cons map_Suc_upt del: upt_Suc)
  then have "map (\<lambda>k. Some (ss ! ((currentIndex lb + k) mod length ss))) [0..<Suc n] =
      Some (ss ! (currentIndex lb mod length ss)) #
      map (\<lambda>k. Some (ss ! ((currentIndex lb + Suc k) mod length ss))) [0..<n]"
    by (simp add: comp_def del: upt_Suc)
  with step rest show ?case by (simp del: upt_Suc)
qed

text \<open>
  C8, as the code has it. With the round-robin strategy and the enabled-and-healthy
  servers \<open>[A, B, C]\<close>, the \<open>k\<close>-th of consecutive calls returns the server at
  position \<open>(currentIndex + k) mod 3\<close>: the index advances by one per call and is read
  modulo the filtered count. Four calls return \<open>A, B, C, A\<close> when they start at an
  index that is a multiple of three, as on a new balancer.
\<close>

theorem roundRobin_four_selections:
  assumes "strategy lb = ROUND_ROBIN" and "getHealthyServers lb = [A, B, C]"
  shows "selections 4 rnd ctx lb =
           map (\<lambda>k. Some ([A, B, C] ! ((currentIndex lb + k) mod 3))) [0, 1, 2, 3]
         \<and> (currentIndex lb mod 3 = 0
              \<longrightarrow> selections 4 rnd ctx lb = [Some A, Some B, Some C, Some A])"
proof -
  have up: "[0..<4] = [0, 1, 2, 3::nat]"
    by (simp add: upt_rec)
  from selections_roundRobin [OF assms(1) assms(2), of 4 rnd ctx]
  have gen: "selections 4 rnd ctx lb =
      map (\<lambda>k. Some ([A, B, C] ! ((currentIndex lb + k) mod 3))) [0, 1, 2, 3]"
    by (simp add: up)
  have "selections 4 rnd ctx lb = [Some A, Some B, Some C, Some A]"
    if z: "currentIndex lb mod 3 = 0"
  proof -
    have "(currentIndex lb + 1) mod 3 = 1" "(currentIndex lb + 2) mod 3 = 2"
      "(currentIndex lb + 3) mod 3 = 0"
      using z by presburger+
    with gen z show ?thesis by simp
  qed
  with gen show ?thesis by blast
qed

theorem roundRobin_four_selections_witness:
  "strategy lbABC = ROUND_ROBIN \<and> getHealthyServers lbABC = [srvA, srvB, srvC]
   \<and> currentIndex lbABC mod 3 = 0
   \<and> selections 4 0 ctx0 lbABC = [Some srvA, Some srvB, Some srvC, Some srvA]"
proof -
  have s: "strategy lbABC = ROUND_ROBIN"
    by (simp add: lbABC_def addServers_def addServer_def newLoadBalancer_def)
  have h: "getHealthyServers lbABC = [srvA, srvB, srvC]"
    by (simp add: lbABC_def addServers_def addServer_def newLoadBalancer_def
        getHealthyServers_def srvA_def srvB_def srvC_def mkServer_def)
  have z: "currentIndex lbABC mod 3 = 0"
    by (simp add: lbABC_def addServers_def addServer_def newLoadBalancer_def)
  from roundRobin_four_selections [OF s h, of 0 ctx0] z
  have "selections 4 0 ctx0 lbABC = [Some srvA, Some srvB, Some srvC, Some srvA]"
    by blast
  with s h z show ?thesis by simp
qed

text \<open>
  A balancer that has already served one request has the same three healthy servers
  and the same strategy, and its next four selections are \<open>B, C, A, B\<close>.
\<close>

theorem roundRobin_four_selections_counterexample:
  "strategy (snd (getNextServer 0 ctx0 lbABC)) = ROUND_ROBIN
   \<and> getHealthyServers (snd (getNextServer 0 ctx0 lbABC)) = [srvA, srvB, srvC]
   \<and> selections 4 0 ctx0 (snd (getNextServer 0 ctx0 lbABC))
       = [Some srvB, Some srvC, Some srvA, Some srvB]
   \<and> selections 4 0 ctx0 (snd (getNextServer 0 ctx0 lbABC))
       \<noteq> [Some srvA, Some srvB, Some srvC, Some srvA]"
proof -
  have s: "strategy lbABC = ROUND_ROBIN"
    by (simp add: lbABC_def addServers_def addServer_def newLoadBalancer_def)
  have h: "getHealthyServers lbABC = [srvA, srvB, srvC]"
    by (simp add: lbABC_def addServers_def addServer_def newLoadBalancer_def
        getHealthyServers_def srvA_def srvB_def srvC_def mkServer_def)
  have z: "currentIndex lbABC = 0"
    by (simp add: lbABC_def addServers_def addServer_def newLoadBalancer_def)
  let ?lb1 = "lbABC\<lparr>currentIndex := 1\<rparr>"
  from getNextServer_roundRobin [of lbABC 0 ctx0] s h z
  have one: "snd (getNextServer 0 ctx0 lbABC) = ?lb1" by simp
  have s1: "strategy ?lb1 = ROUND_ROBIN" using s by simp
  have h1: "getHealthyServers ?lb1 = [srvA, srvB, srvC]" using h by simp
  have up: "[0..<4] = [0, 1, 2, 3::nat]" by (simp add: upt_rec)
  from selections_roundRobin [OF s1 h1, of 4 0 ctx0]
  have sel: "selections 4 0 ctx0 ?lb1 = [Some srvB, Some srvC, Some srvA, Some srvB]"
    by (simp add: up)
  have ne: "srvB \<noteq> srvA" by (simp add: srvA_def srvB_def mkServer_def)
  from one s1 h1 sel ne show ?thesis by simp
qed

section \<open>Circuit breaker (\<open>packages/features/src/CircuitBreaker.ts\<close>)\<close>

text \<open>
  Times are the millisecond readings of \<open>Date.now()\<close>; the counters are integers.
  \<open>failureThreshold\<close> is a ratio. The readings of \<open>Date.now()\<close> inside one
  synchronous handler are one instant \<open>now\<close>.
\<close>

datatype CircuitState = CLOSED | OPEN | HALF_OPEN

record CircuitBreakerConfig =
  cfg_failureThreshold :: "real option"
  cfg_successThreshold :: "int option"
  cfg_timeout :: "int option"
  cfg_resetTimeout :: "int option"
  cfg_monitoringPeriod :: "int option"

record CircuitBreaker =
  state :: CircuitState
  failureCount :: int
  successCount :: int
  totalRequests :: int
  lastFailureTime :: "int option"
  requestTimestamps :: "int list"
  failureThreshold :: real
  successThreshold :: int
  timeout :: int
  resetTimeout :: int
  monitoringPeriod :: int

text \<open>\<open>x || d\<close> on an optional number: absent and zero both give the default.\<close>

definition orDefault :: "'a::zero option \<Rightarrow> 'a \<Rightarrow> 'a" where
  "orDefault x d = (case x of None \<Rightarrow> d | Some v \<Rightarrow> if v = 0 then d else v)"

definition newCircuitBreaker :: "CircuitBreakerConfig \<Rightarrow> CircuitBreaker" where
  "newCircuitBreaker config =
     \<lparr>state = CLOSED, failureCount = 0, successCount = 0, totalRequests = 0,
      lastFailureTime = None, requestTimestamps = [],
      failureThreshold = orDefault (cfg_failureThreshold config) (1 / 2),
      successThreshold = orDefault (cfg_successThreshold config) 5,
      timeout = orDefault (cfg_timeout config) 30000,
      resetTimeout = orDefault (cfg_resetTimeout config) 60000,
      monitoringPeriod = orDefault (cfg_monitoringPeriod config) 10000\<rparr>"

definition defaultConfig :: CircuitBreakerConfig where
  "defaultConfig =
     \<lparr>cfg_failureThreshold = None, cfg_successThreshold = None, cfg_timeout = None,
      cfg_resetTimeout = None, cfg_monitoringPeriod = None\<rparr>"

definition cleanOldRequests :: "int \<Rightarrow> CircuitBreaker \<Rightarrow> CircuitBreaker" where
  "cleanOldRequests now cb =
     (let cutoff = now - monitoringPeriod cb;
          kept = filter (\<lambda>ts. ts > cutoff) (requestTimestamps cb);
          cb1 = cb\<lparr>requestTimestamps := kept\<rparr>
      in if int (length kept) < totalRequests cb1
         then cb1\<lparr>totalRequests := int (length kept),
                  failureCount := min (failureCount cb1) (int (length kept))\<rparr>
         else cb1)"

definition onSuccess :: "int \<Rightarrow> CircuitBreaker \<Rightarrow> CircuitBreaker" where
  "onSuccess now cb =
     (let cb1 = cleanOldRequests now (cb\<lparr>totalRequests := totalRequests cb + 1\<rparr>)
      in if state cb1 = HALF_OPEN
         then (let cb2 = cb1\<lparr>successCount := successCount cb1 + 1\<rparr>
               in if successCount cb2 \<ge> successThreshold cb2
                  then cb2\<lparr>state := CLOSED, failureCount := 0, successCount := 0\<rparr>
                  else cb2)
         else cb1)"

text \<open>
  \<open>_onFailure\<close>. The ratio is a division of two numbers; with
  \<open>totalRequests\<close> below 10 the second conjunct alone keeps the breaker from
  opening, so the value of the division at zero plays no part.
\<close>

definition onFailure :: "int \<Rightarrow> CircuitBreaker \<Rightarrow> CircuitBreaker" where
  "onFailure now cb =
     (let cb1 = cleanOldRequests now
                  (cb\<lparr>totalRequests := totalRequests cb + 1,
                      failureCount := failureCount cb + 1,
                      lastFailureTime := Some now,
                      requestTimestamps := requestTimestamps cb @ [now]\<rparr>)
      in if state cb1 = HALF_OPEN
         then cb1\<lparr>state := OPEN, successCount := 0\<rparr>
         else (let failureRate = real_of_int (failureCount cb1) / real_of_int (totalRequests cb1)
               in if failureRate \<ge> failureThreshold cb1 \<and> totalRequests cb1 \<ge> 10
                  then cb1\<lparr>state := OPEN\<rparr>
                  else cb1))"

text \<open>\<open>!this.lastFailureTime\<close> holds for an absent time and for the time 0.\<close>

definition shouldAttemptReset :: "int \<Rightarrow> CircuitBreaker \<Rightarrow> bool" where
  "shouldAttemptReset now cb =
     (case lastFailureTime cb of
        None \<Rightarrow> False
      | Some t \<Rightarrow> if t = 0 then False else now - t \<ge> resetTimeout cb)"

datatype allow_error = CircuitOpenError | OperationError

text \<open>
  \<open>allow\<close> is asynchronous. Its synchronous prefix, up to the call of \<open>fn()\<close>,
  is \<open>allowEnter\<close>: it either throws the circuit-open error (and \<open>fn\<close> is not
  called) or lets the call through, having moved an eligible open breaker to
  \<open>HALF_OPEN\<close>. When the race between \<open>fn()\<close> and the timeout settles,
  \<open>allowSettle\<close> runs \<open>_onSuccess\<close> or \<open>_onFailure\<close>; \<open>ok\<close> says whether
  the race resolved.
\<close>

definition allowEnter :: "int \<Rightarrow> CircuitBreaker \<Rightarrow> allow_error + CircuitBreaker" where
  "allowEnter now cb =
     (if state cb = OPEN
      then (if shouldAttemptReset now cb then Inr (cb\<lparr>state := HALF_OPEN\<rparr>)
            else Inl CircuitOpenError)
      else Inr cb)"

definition allowSettle :: "bool \<Rightarrow> int \<Rightarrow> CircuitBreaker \<Rightarrow> CircuitBreaker" where
  "allowSettle ok now cb = (if ok then onSuccess now cb else onFailure now cb)"

text \<open>
  One whole call with no other call in between: entered at \<open>now\<close>, settled at
  \<open>settled\<close>. The result carries whether \<open>fn\<close> was invoked and what the caller
  gets.
\<close>

record allow_outcome =
  invoked :: bool
  thrown :: "allow_error option"

definition allow ::
  "int \<Rightarrow> bool \<Rightarrow> int \<Rightarrow> CircuitBreaker \<Rightarrow> allow_outcome \<times> CircuitBreaker" where
  "allow now ok settled cb =
     (case allowEnter now cb of
        Inl e \<Rightarrow> (\<lparr>invoked = False, thrown = Some e\<rparr>, cb)
      | Inr cb1 \<Rightarrow>
          (\<lparr>invoked = True, thrown = (if ok then None else Some OperationError)\<rparr>,
           allowSettle ok settled cb1))"

text \<open>A sequence of whole calls, each given as (entry time, outcome, settle time).\<close>

definition runCalls :: "(int \<times> bool \<times> int) list \<Rightarrow> CircuitBreaker \<Rightarrow> CircuitBreaker" where
  "runCalls calls cb = foldl (\<lambda>c (now, ok, settled). snd (allow now ok settled c)) cb calls"

section \<open>Circuit breaker: concrete breakers and call sequences\<close>

definition failuresFrom :: "int \<Rightarrow> nat \<Rightarrow> (int \<times> bool \<times> int) list" where
  "failuresFrom t n = map (\<lambda>i. (t + int i, False, t + int i)) [0..<n]"

definition successesFrom :: "int \<Rightarrow> nat \<Rightarrow> (int \<times> bool \<times> int) list" where
  "successesFrom t n = map (\<lambda>i. (t + int i, True, t + int i)) [0..<n]"

definition halfConfig :: CircuitBreakerConfig where
  "halfConfig = defaultConfig\<lparr>cfg_failureThreshold := Some (1 / 2)\<rparr>"

definition fastConfig :: CircuitBreakerConfig where
  "fastConfig = defaultConfig\<lparr>cfg_successThreshold := Some 1, cfg_resetTimeout := Some 1000\<rparr>"

definition cbOpened :: CircuitBreaker where
  "cbOpened = runCalls (failuresFrom 1000 10) (newCircuitBreaker halfConfig)"

definition cbFastOpened :: CircuitBreaker where
  "cbFastOpened = runCalls (failuresFrom 1000 10) (newCircuitBreaker fastConfig)"

lemmas cb_eval =
  runCalls_def allow_def allowEnter_def allowSettle_def onSuccess_def onFailure_def
  cleanOldRequests_def shouldAttemptReset_def newCircuitBreaker_def defaultConfig_def
  halfConfig_def fastConfig_def orDefault_def failuresFrom_def successesFrom_def Let_def
  upt_rec

lemma cbOpened_eq:
  "cbOpened =
     \<lparr>state = OPEN, failureCount = 10, successCount = 0, totalRequests = 10,
      lastFailureTime = Some 1009,
      requestTimestamps = [1000, 1001, 1002, 1003, 1004, 1005, 1006, 1007, 1008, 1009],
      failureThreshold = 1 / 2, successThreshold = 5, timeout = 30000,
      resetTimeout = 60000, monitoringPeriod = 10000\<rparr>"
  by (simp add: cbOpened_def cb_eval)

lemma cbFastOpened_eq:
  "cbFastOpened =
     \<lparr>state = OPEN, failureCount = 10, successCount = 0, totalRequests = 10,
      lastFailureTime = Some 1009,
      requestTimestamps = [1000, 1001, 1002, 1003, 1004, 1005, 1006, 1007, 1008, 1009],
      failureThreshold = 1 / 2, successThreshold = 1, timeout = 30000,
      resetTimeout = 1000, monitoringPeriod = 10000\<rparr>"
  by (simp add: cbFastOpened_def cb_eval)

section \<open>Circuit breaker: opening\<close>

text \<open>
  Five calls that succeed followed by five that fail, one millisecond apart.
\<close>

definition fiveThenFive :: "(int \<times> bool \<times> int) list" where
  "fiveThenFive = successesFrom 1000 5 @ failuresFrom 1005 5"

text \<open>
  C1. With \<open>failureThreshold = 0.5\<close>, a new breaker is sent five calls that succeed
  and then five that fail. All ten attempts lie inside the monitoring window when the
  last one settles, five of them failed, \<open>5 / 10\<close> reaches the threshold, and the
  tenth call is a failure recorded in \<open>CLOSED\<close>; the breaker stays \<open>CLOSED\<close>.
  Only \<open>_onFailure\<close> pushes a timestamp, and \<open>_cleanOldRequests\<close> cuts
  \<open>totalRequests\<close> back to the length of \<open>requestTimestamps\<close> after every call,
  so the five successes are not counted: the total is 5 and the test
  \<open>totalRequests >= 10\<close> fails.
\<close>

theorem five_successes_five_failures_stay_closed:
  "length fiveThenFive = 10
   \<and> length (filter (\<lambda>(now, ok, settled). \<not> ok) fiveThenFive) = 5
   \<and> length (filter (\<lambda>(now, ok, settled).
         settled > 1009 - monitoringPeriod (newCircuitBreaker halfConfig)) fiveThenFive) = 10
   \<and> failureThreshold (newCircuitBreaker halfConfig) \<le> 5 / 10
   \<and> last fiveThenFive = (1009, False, 1009)
   \<and> state (runCalls (butlast fiveThenFive) (newCircuitBreaker halfConfig)) = CLOSED
   \<and> state (runCalls fiveThenFive (newCircuitBreaker halfConfig)) = CLOSED
   \<and> totalRequests (runCalls fiveThenFive (newCircuitBreaker halfConfig)) = 5
   \<and> failureCount (runCalls fiveThenFive (newCircuitBreaker halfConfig)) = 5
   \<and> requestTimestamps (runCalls fiveThenFive (newCircuitBreaker halfConfig))
       = [1005, 1006, 1007, 1008, 1009]"
  by (simp add: fiveThenFive_def cb_eval)

text \<open>
  For comparison, the breaker with every attempt's timestamp recorded, as the window
  over attempts asks: \<open>_onSuccess\<close> pushes the time as \<open>_onFailure\<close> does, and
  nothing else is changed. On the same ten calls it opens at the tenth, with a total
  of 10 and 5 failures.
\<close>

definition onSuccessRecorded :: "int \<Rightarrow> CircuitBreaker \<Rightarrow> CircuitBreaker" where
  "onSuccessRecorded now cb =
     onSuccess now (cb\<lparr>requestTimestamps := requestTimestamps cb @ [now]\<rparr>)"

definition allowRecorded ::
  "int \<Rightarrow> bool \<Rightarrow> int \<Rightarrow> CircuitBreaker \<Rightarrow> allow_outcome \<times> CircuitBreaker" where
  "allowRecorded now ok settled cb =
     (case allowEnter now cb of
        Inl e \<Rightarrow> (\<lparr>invoked = False, thrown = Some e\<rparr>, cb)
      | Inr cb1 \<Rightarrow>
          (\<lparr>invoked = True, thrown = (if ok then None else Some OperationError)\<rparr>,
           if ok then onSuccessRecorded settled cb1 else onFailure settled cb1))"

definition runCallsRecorded ::
  "(int \<times> bool \<times> int) list \<Rightarrow> CircuitBreaker \<Rightarrow> CircuitBreaker" where
  "runCallsRecorded calls cb =
     foldl (\<lambda>c (now, ok, settled). snd (allowRecorded now ok settled c)) cb calls"

lemma recorded_attempts_open_at_tenth:
  "state (runCallsRecorded fiveThenFive (newCircuitBreaker halfConfig)) = OPEN
   \<and> totalRequests (runCallsRecorded fiveThenFive (newCircuitBreaker halfConfig)) = 10
   \<and> failureCount (runCallsRecorded fiveThenFive (newCircuitBreaker halfConfig)) = 5"
  by (simp add: fiveThenFive_def runCallsRecorded_def allowRecorded_def onSuccessRecorded_def
      cb_eval)

text \<open>
  Ten calls of which the first five fail, or the first nine, also leave the breaker
  \<open>CLOSED\<close>. There the last failure arrives before ten attempts have been made,
  and the threshold is tested only after a failure, so recording every attempt gives
  the same state.
\<close>

lemma failures_first_stay_closed:
  "state (runCalls (failuresFrom 1000 5 @ successesFrom 1005 5) (newCircuitBreaker halfConfig))
     = CLOSED
   \<and> totalRequests
       (runCalls (failuresFrom 1000 5 @ successesFrom 1005 5) (newCircuitBreaker halfConfig)) = 5
   \<and> state (runCalls (failuresFrom 1000 9 @ successesFrom 1009 1) (newCircuitBreaker halfConfig))
       = CLOSED
   \<and> state (runCallsRecorded (failuresFrom 1000 5 @ successesFrom 1005 5)
         (newCircuitBreaker halfConfig)) = CLOSED
   \<and> state (runCallsRecorded (failuresFrom 1000 9 @ successesFrom 1009 1)
         (newCircuitBreaker halfConfig)) = CLOSED"
  by (simp add: runCallsRecorded_def allowRecorded_def onSuccessRecorded_def cb_eval)

text \<open>
  In general: after any call the total is at most the number of recorded failure
  timestamps, so a closed breaker stays closed as long as fewer than ten failures are
  on record, whatever the successes.
\<close>

lemma cleanOldRequests_total_le:
  "totalRequests (cleanOldRequests now cb) \<le> int (length (requestTimestamps (cleanOldRequests now cb)))"
  by (simp add: cleanOldRequests_def Let_def)

lemma cleanOldRequests_length_le:
  "length (requestTimestamps (cleanOldRequests now cb)) \<le> length (requestTimestamps cb)"
  by (simp add: cleanOldRequests_def Let_def)

lemma cleanOldRequests_state [simp]:
  "state (cleanOldRequests now cb) = state cb"
  by (simp add: cleanOldRequests_def Let_def)

lemma allow_closed_step:
  assumes "state cb = CLOSED"
    and "length (requestTimestamps cb) + (if ok then 0 else 1) < 10"
  shows "state (snd (allow now ok settled cb)) = CLOSED
         \<and> length (requestTimestamps (snd (allow now ok settled cb)))
             \<le> length (requestTimestamps cb) + (if ok then 0 else 1)"
proof (cases ok)
  case True
  let ?c = "cb\<lparr>totalRequests := totalRequests cb + 1\<rparr>"
  from cleanOldRequests_length_le [of settled ?c]
  have "length (requestTimestamps (cleanOldRequests settled ?c)) \<le> length (requestTimestamps cb)"
    by simp
  with True assms(1) show ?thesis
    by (simp add: allow_def allowEnter_def allowSettle_def onSuccess_def Let_def)
next
  case False
  let ?c = "cb\<lparr>totalRequests := totalRequests cb + 1, failureCount := failureCount cb + 1,
      lastFailureTime := Some settled, requestTimestamps := requestTimestamps cb @ [settled]\<rparr>"
  from cleanOldRequests_length_le [of settled ?c]
  have len: "length (requestTimestamps (cleanOldRequests settled ?c)) \<le> length (requestTimestamps cb) + 1"
    by simp
  with cleanOldRequests_total_le [of settled ?c] False assms(2)
  have "totalRequests (cleanOldRequests settled ?c) < 10" by simp
  with False assms(1) len show ?thesis
    by (simp add: allow_def allowEnter_def allowSettle_def onFailure_def Let_def)
qed

lemma fewer_than_ten_failures_stay_closed:
  assumes "state cb = CLOSED"
    and "length (requestTimestamps cb) + length (filter (\<lambda>(now, ok, settled). \<not> ok) calls) < 10"
  shows "state (runCalls calls cb) = CLOSED"
  using assms
proof (induction calls arbitrary: cb)
  case Nil
  then show ?case by (simp add: runCalls_def)
next
  case (Cons c calls)
  obtain now ok settled where c: "c = (now, ok, settled)" by (cases c)
  let ?cb' = "snd (allow now ok settled cb)"
  from Cons.prems c
  have pre: "length (requestTimestamps cb) + (if ok then 0 else 1) < 10" by (simp split: if_splits)
  from allow_closed_step [OF Cons.prems(1) pre, of now settled]
  have st: "state ?cb' = CLOSED"
    and len: "length (requestTimestamps ?cb') \<le> length (requestTimestamps cb) + (if ok then 0 else 1)"
    by simp_all
  from len Cons.prems(2) c
  have "length (requestTimestamps ?cb') + length (filter (\<lambda>(now, ok, settled). \<not> ok) calls) < 10"
    by (simp split: if_splits)
  with st have "state (runCalls calls ?cb') = CLOSED" by (rule Cons.IH)
  with c show ?case by (simp add: runCalls_def)
qed

section \<open>Circuit breaker: the open state\<close>

lemma allowEnter_half_open:
  "state cb = HALF_OPEN \<Longrightarrow> allowEnter now cb = Inr cb"
  by (simp add: allowEnter_def)

text \<open>
  C2, as the code has it. An open breaker whose last failure is at \<open>t\<close> rejects a
  call entering before \<open>t + resetTimeout\<close> with the circuit-open error, without
  invoking the operation and without changing state. A call entering at or after
  that moment moves the breaker to \<open>HALF_OPEN\<close> and is let through. Nothing counts
  the calls let through in \<open>HALF_OPEN\<close>: every later call entering while the breaker
  is \<open>HALF_OPEN\<close> is let through too, whether or not the first has settled.
\<close>

theorem allow_in_open_state:
  assumes "state cb = OPEN" and "lastFailureTime cb = Some t" and "t \<noteq> 0"
  shows "(now - t < resetTimeout cb \<longrightarrow>
            allow now ok settled cb = (\<lparr>invoked = False, thrown = Some CircuitOpenError\<rparr>, cb))
         \<and> (now - t \<ge> resetTimeout cb \<longrightarrow>
              allowEnter now cb = Inr (cb\<lparr>state := HALF_OPEN\<rparr>)
              \<and> invoked (fst (allow now ok settled cb))
              \<and> allowEnter later (cb\<lparr>state := HALF_OPEN\<rparr>) = Inr (cb\<lparr>state := HALF_OPEN\<rparr>))"
  using assms
  by (simp add: allow_def allowEnter_def shouldAttemptReset_def)

theorem allow_in_open_state_witness:
  "state cbOpened = OPEN \<and> lastFailureTime cbOpened = Some 1009
   \<and> allow 1010 True 1010 cbOpened = (\<lparr>invoked = False, thrown = Some CircuitOpenError\<rparr>, cbOpened)
   \<and> allowEnter 61009 cbOpened = Inr (cbOpened\<lparr>state := HALF_OPEN\<rparr>)
   \<and> invoked (fst (allow 61009 True 61020 cbOpened))"
proof -
  have s: "state cbOpened = OPEN" and l: "lastFailureTime cbOpened = Some 1009"
    and r: "resetTimeout cbOpened = 60000"
    by (simp_all add: cbOpened_eq)
  have nz: "(1009::int) \<noteq> 0" by simp
  from allow_in_open_state [OF s l nz, of 1010 True 1010] r
  have a: "allow 1010 True 1010 cbOpened = (\<lparr>invoked = False, thrown = Some CircuitOpenError\<rparr>, cbOpened)"
    by simp
  from allow_in_open_state [OF s l nz, of 61009 True 61020] r
  have b: "allowEnter 61009 cbOpened = Inr (cbOpened\<lparr>state := HALF_OPEN\<rparr>)"
    and c: "invoked (fst (allow 61009 True 61020 cbOpened))"
    by simp_all
  from s l a b c show ?thesis by simp
qed

text \<open>
  Two calls enter at the same instant after \<open>resetTimeout\<close>; neither has settled.
  The first moves the breaker to \<open>HALF_OPEN\<close>, and the second is let through as
  well.
\<close>

theorem second_trial_call_admitted_counterexample:
  "state cbOpened = OPEN
   \<and> allowEnter 61009 cbOpened = Inr (cbOpened\<lparr>state := HALF_OPEN\<rparr>)
   \<and> state (cbOpened\<lparr>state := HALF_OPEN\<rparr>) = HALF_OPEN
   \<and> allowEnter 61009 (cbOpened\<lparr>state := HALF_OPEN\<rparr>) = Inr (cbOpened\<lparr>state := HALF_OPEN\<rparr>)"
  by (simp add: cbOpened_eq allowEnter_def shouldAttemptReset_def)

section \<open>Circuit breaker: the half-open state\<close>

lemma cleanOldRequests_successCount [simp]:
  "successCount (cleanOldRequests now cb) = successCount cb"
  by (simp add: cleanOldRequests_def Let_def)

lemma cleanOldRequests_successThreshold [simp]:
  "successThreshold (cleanOldRequests now cb) = successThreshold cb"
  by (simp add: cleanOldRequests_def Let_def)

lemma cleanOldRequests_failureCount_zero:
  "failureCount cb = 0 \<Longrightarrow> failureCount (cleanOldRequests now cb) = 0"
  by (simp add: cleanOldRequests_def Let_def)

lemma onSuccess_successThreshold [simp]:
  "successThreshold (onSuccess now cb) = successThreshold cb"
  by (simp add: onSuccess_def Let_def)

lemma onSuccess_half_open_below:
  assumes "state cb = HALF_OPEN" and "successCount cb + 1 < successThreshold cb"
  shows "state (onSuccess now cb) = HALF_OPEN
         \<and> successCount (onSuccess now cb) = successCount cb + 1"
  using assms by (simp add: onSuccess_def Let_def)

lemma onSuccess_half_open_reached:
  assumes "state cb = HALF_OPEN" and "successCount cb + 1 \<ge> successThreshold cb"
  shows "state (onSuccess now cb) = CLOSED \<and> failureCount (onSuccess now cb) = 0
         \<and> successCount (onSuccess now cb) = 0"
  using assms by (simp add: onSuccess_def Let_def)

lemma onSuccess_closed_keeps:
  assumes "state cb = CLOSED" and "failureCount cb = 0" and "successCount cb = 0"
  shows "state (onSuccess now cb) = CLOSED \<and> failureCount (onSuccess now cb) = 0
         \<and> successCount (onSuccess now cb) = 0"
  using assms cleanOldRequests_failureCount_zero [of "cb\<lparr>totalRequests := totalRequests cb + 1\<rparr>" now]
  by (simp add: onSuccess_def Let_def)

lemma allow_success_not_open:
  "state cb \<noteq> OPEN \<Longrightarrow> snd (allow now True settled cb) = onSuccess settled cb"
  by (simp add: allow_def allowEnter_def allowSettle_def)

lemma runCalls_Cons:
  "runCalls ((now, ok, settled) # calls) cb = runCalls calls (snd (allow now ok settled cb))"
  by (simp add: runCalls_def)

lemma runCalls_successes_closed:
  assumes "state cb = CLOSED" and "failureCount cb = 0" and "successCount cb = 0"
    and "\<forall>c \<in> set calls. fst (snd c)"
  shows "state (runCalls calls cb) = CLOSED \<and> failureCount (runCalls calls cb) = 0
         \<and> successCount (runCalls calls cb) = 0"
  using assms
proof (induction calls arbitrary: cb)
  case Nil
  then show ?case by (simp add: runCalls_def)
next
  case (Cons c calls)
  from Cons.prems(4) obtain now settled where c: "c = (now, True, settled)"
    by (cases c) auto
  from Cons.prems(1) have step: "snd (allow now True settled cb) = onSuccess settled cb"
    by (simp add: allow_success_not_open)
  from onSuccess_closed_keeps [OF Cons.prems(1-3), of settled]
  have "state (onSuccess settled cb) = CLOSED" "failureCount (onSuccess settled cb) = 0"
    "successCount (onSuccess settled cb) = 0" by simp_all
  moreover from Cons.prems(4) have "\<forall>c \<in> set calls. fst (snd c)" by simp
  ultimately have "state (runCalls calls (onSuccess settled cb)) = CLOSED
      \<and> failureCount (runCalls calls (onSuccess settled cb)) = 0
      \<and> successCount (runCalls calls (onSuccess settled cb)) = 0"
    by (rule Cons.IH)
  with c step show ?case by (simp add: runCalls_Cons)
qed

lemma runCalls_successes_half_open:
  assumes "state cb = HALF_OPEN" and "successCount cb < successThreshold cb"
    and "\<forall>c \<in> set calls. fst (snd c)"
  shows "(successCount cb + int (length calls) < successThreshold cb \<longrightarrow>
            state (runCalls calls cb) = HALF_OPEN
            \<and> successCount (runCalls calls cb) = successCount cb + int (length calls))
         \<and> (successCount cb + int (length calls) \<ge> successThreshold cb \<longrightarrow>
              state (runCalls calls cb) = CLOSED \<and> failureCount (runCalls calls cb) = 0
              \<and> successCount (runCalls calls cb) = 0)"
  using assms
proof (induction calls arbitrary: cb)
  case Nil
  then show ?case by (simp add: runCalls_def)
next
  case (Cons c calls)
  from Cons.prems(3) obtain now settled where c: "c = (now, True, settled)"
    by (cases c) auto
  from Cons.prems(3) have rest: "\<forall>c \<in> set calls. fst (snd c)" by simp
  from Cons.prems(1) have step: "snd (allow now True settled cb) = onSuccess settled cb"
    by (simp add: allow_success_not_open)
  let ?cb' = "onSuccess settled cb"
  show ?case
  proof (cases "successCount cb + 1 < successThreshold cb")
    case True
    from onSuccess_half_open_below [OF Cons.prems(1) True, of settled]
    have st: "state ?cb' = HALF_OPEN" and sc: "successCount ?cb' = successCount cb + 1"
      by simp_all
    from sc True have lt: "successCount ?cb' < successThreshold ?cb'" by simp
    from Cons.IH [OF st lt rest] sc c step show ?thesis
      by (simp add: runCalls_Cons add.assoc)
  next
    case False
    then have ge: "successCount cb + 1 \<ge> successThreshold cb" by simp
    from onSuccess_half_open_reached [OF Cons.prems(1) ge, of settled]
    have "state ?cb' = CLOSED" "failureCount ?cb' = 0" "successCount ?cb' = 0"
      by simp_all
    then have "state (runCalls calls ?cb') = CLOSED \<and> failureCount (runCalls calls ?cb') = 0
        \<and> successCount (runCalls calls ?cb') = 0"
      using rest by (rule runCalls_successes_closed)
    with c step ge show ?thesis by (simp add: runCalls_Cons)
  qed
qed

lemma onFailure_half_open:
  "state cb = HALF_OPEN \<Longrightarrow>
     state (onFailure now cb) = OPEN \<and> successCount (onFailure now cb) = 0"
  by (simp add: onFailure_def Let_def)

text \<open>
  After a success the total is the number of failure timestamps that pruning kept,
  whenever it was at least the number on record before.
\<close>

lemma onSuccess_total:
  assumes "int (length (requestTimestamps cb)) \<le> totalRequests cb"
  shows "totalRequests (onSuccess now cb)
           = int (length (filter (\<lambda>ts. ts > now - monitoringPeriod cb) (requestTimestamps cb)))"
proof -
  let ?kept = "filter (\<lambda>ts. ts > now - monitoringPeriod cb) (requestTimestamps cb)"
  have "length ?kept \<le> length (requestTimestamps cb)" by simp
  with assms have "int (length ?kept) < totalRequests cb + 1" by linarith
  then show ?thesis by (simp add: onSuccess_def cleanOldRequests_def Let_def)
qed

text \<open>
  C3, as the code has it. From \<open>HALF_OPEN\<close>, successful calls keep the breaker
  \<open>HALF_OPEN\<close> and count up while the count is below \<open>successThreshold\<close>; the
  success that reaches the threshold closes it with the failure count and the
  success count at zero, and further successes keep it so. In particular
  \<open>successThreshold\<close> consecutive successes close it. One failed call reopens it at
  once. The total request count is not reset on closing: a success leaves it at the
  number of failure timestamps still inside the monitoring window.
\<close>

theorem half_open_recovery:
  assumes "state cb = HALF_OPEN"
    and "0 \<le> successCount cb" and "successCount cb < successThreshold cb"
    and "\<forall>c \<in> set calls. fst (snd c)"
  shows "(successCount cb + int (length calls) < successThreshold cb \<longrightarrow>
            state (runCalls calls cb) = HALF_OPEN
            \<and> successCount (runCalls calls cb) = successCount cb + int (length calls))
         \<and> (successCount cb + int (length calls) \<ge> successThreshold cb \<longrightarrow>
              state (runCalls calls cb) = CLOSED \<and> failureCount (runCalls calls cb) = 0
              \<and> successCount (runCalls calls cb) = 0)
         \<and> (int (length calls) = successThreshold cb \<longrightarrow>
              state (runCalls calls cb) = CLOSED \<and> failureCount (runCalls calls cb) = 0
              \<and> successCount (runCalls calls cb) = 0)
         \<and> state (snd (allow now False settled cb)) = OPEN
         \<and> (int (length (requestTimestamps cb)) \<le> totalRequests cb \<longrightarrow>
              totalRequests (snd (allow now True settled cb))
                = int (length (filter (\<lambda>ts. ts > settled - monitoringPeriod cb)
                                      (requestTimestamps cb))))"
proof -
  note gen = runCalls_successes_half_open [OF assms(1) assms(3) assms(4)]
  have fail: "state (snd (allow now False settled cb)) = OPEN"
    using assms(1) onFailure_half_open [OF assms(1), of settled]
    by (simp add: allow_def allowEnter_def allowSettle_def)
  have tot: "totalRequests (snd (allow now True settled cb))
               = int (length (filter (\<lambda>ts. ts > settled - monitoringPeriod cb)
                                     (requestTimestamps cb)))"
    if "int (length (requestTimestamps cb)) \<le> totalRequests cb"
    using that assms(1) onSuccess_total [of cb settled]
    by (simp add: allow_success_not_open)
  from gen assms(2) fail tot show ?thesis by auto
qed

definition cbHalfOpen :: CircuitBreaker where
  "cbHalfOpen = cbOpened\<lparr>state := HALF_OPEN\<rparr>"

theorem half_open_recovery_witness:
  "state cbHalfOpen = HALF_OPEN \<and> successCount cbHalfOpen = 0
   \<and> successThreshold cbHalfOpen = int (length (successesFrom 61010 5))
   \<and> state (runCalls (successesFrom 61010 5) cbHalfOpen) = CLOSED
   \<and> failureCount (runCalls (successesFrom 61010 5) cbHalfOpen) = 0
   \<and> successCount (runCalls (successesFrom 61010 5) cbHalfOpen) = 0
   \<and> state (runCalls (successesFrom 61010 4) cbHalfOpen) = HALF_OPEN
   \<and> state (snd (allow 61010 False 61011 cbHalfOpen)) = OPEN"
proof -
  have s: "state cbHalfOpen = HALF_OPEN" and z: "successCount cbHalfOpen = 0"
    and t: "successThreshold cbHalfOpen = 5"
    by (simp_all add: cbHalfOpen_def cbOpened_eq)
  have h2: "0 \<le> successCount cbHalfOpen"
    and h3: "successCount cbHalfOpen < successThreshold cbHalfOpen"
    by (simp_all add: z t)
  have a5: "\<forall>c \<in> set (successesFrom 61010 5). fst (snd c)"
    and a4: "\<forall>c \<in> set (successesFrom 61010 4). fst (snd c)"
    by (simp_all add: successesFrom_def)
  have l5: "int (length (successesFrom 61010 5)) = 5"
    and l4: "int (length (successesFrom 61010 4)) = 4"
    by (simp_all add: successesFrom_def)
  from half_open_recovery [OF s h2 h3 a5, of 61010 61011] z t l5
  have five: "state (runCalls (successesFrom 61010 5) cbHalfOpen) = CLOSED
      \<and> failureCount (runCalls (successesFrom 61010 5) cbHalfOpen) = 0
      \<and> successCount (runCalls (successesFrom 61010 5) cbHalfOpen) = 0
      \<and> state (snd (allow 61010 False 61011 cbHalfOpen)) = OPEN"
    by simp
  from half_open_recovery [OF s h2 h3 a4, of 61010 61011] z t l4
  have four: "state (runCalls (successesFrom 61010 4) cbHalfOpen) = HALF_OPEN"
    by simp
  from s z t l5 five four show ?thesis by simp
qed

text \<open>
  A breaker configured with \<open>resetTimeout = 1000\<close> and \<open>successThreshold = 1\<close>
  (the monitoring period is the default 10000) opens on ten failures, becomes
  \<open>HALF_OPEN\<close> one second later and closes on the first success; the ten failure
  timestamps are still inside the monitoring window, so the total request count is
  10, not 0.
\<close>

theorem recovery_keeps_total_counterexample:
  "state (cbFastOpened\<lparr>state := HALF_OPEN\<rparr>) = HALF_OPEN
   \<and> allowEnter 2009 cbFastOpened = Inr (cbFastOpened\<lparr>state := HALF_OPEN\<rparr>)
   \<and> successThreshold (cbFastOpened\<lparr>state := HALF_OPEN\<rparr>) = 1
   \<and> state (runCalls (successesFrom 2009 1) (cbFastOpened\<lparr>state := HALF_OPEN\<rparr>)) = CLOSED
   \<and> totalRequests (runCalls (successesFrom 2009 1) (cbFastOpened\<lparr>state := HALF_OPEN\<rparr>)) = 10"
  by (simp add: cbFastOpened_eq cb_eval)

section \<open>Rate limiter (\<open>packages/features/src/RateLimiter.ts\<close>)\<close>

datatype RateLimitAlgorithm = FIXED_WINDOW | SLIDING_WINDOW | TOKEN_BUCKET | LEAKY_BUCKET

record RequestRecord =
  count :: real
  resetTime :: real
  timestamps :: "int list"
  tokens :: "real option"
  lastRefill :: "int option"

text \<open>
  The limiter's configuration and its table of records. \<open>onLimitReached\<close> is a
  notification only and is left out; the readings of \<open>Date.now()\<close> inside one call of
  \<open>allowRequest\<close> are one instant \<open>now\<close>.
\<close>

record RateLimiter =
  algorithm :: RateLimitAlgorithm
  windowMs :: real
  maxRequests :: real
  keyGenerator :: "RequestContext \<Rightarrow> string"
  records :: "string \<rightharpoonup> RequestRecord"

record RateLimitConfig =
  cfg_algorithm :: "RateLimitAlgorithm option"
  cfg_windowMs :: "real option"
  cfg_maxRequests :: "real option"
  cfg_keyGenerator :: "(RequestContext \<Rightarrow> string) option"

definition newRateLimiter :: "RateLimitConfig \<Rightarrow> RateLimiter" where
  "newRateLimiter config =
     \<lparr>algorithm = (case cfg_algorithm config of None \<Rightarrow> SLIDING_WINDOW | Some a \<Rightarrow> a),
      windowMs = orDefault (cfg_windowMs config) 60000,
      maxRequests = orDefault (cfg_maxRequests config) 100,
      keyGenerator = (case cfg_keyGenerator config of None \<Rightarrow> url | Some g \<Rightarrow> g),
      records = Map.empty\<rparr>"

definition createRecord :: "RateLimiter \<Rightarrow> int \<Rightarrow> RequestRecord" where
  "createRecord rl now =
     \<lparr>count = 0, resetTime = dbl (real_of_int now + windowMs rl), timestamps = [],
      tokens = Some (maxRequests rl), lastRefill = Some now\<rparr>"

definition fixedWindow :: "RateLimiter \<Rightarrow> RequestRecord \<Rightarrow> int \<Rightarrow> bool \<times> RequestRecord" where
  "fixedWindow rl record now =
     (let r1 = (if real_of_int now \<ge> resetTime record
                then record\<lparr>count := 0, resetTime := dbl (real_of_int now + windowMs rl)\<rparr>
                else record)
      in if count r1 \<ge> maxRequests rl then (False, r1)
         else (True, r1\<lparr>count := dbl (count r1 + 1)\<rparr>))"

definition slidingWindow :: "RateLimiter \<Rightarrow> RequestRecord \<Rightarrow> int \<Rightarrow> bool \<times> RequestRecord" where
  "slidingWindow rl record now =
     (let windowStart = dbl (real_of_int now - windowMs rl);
          r1 = record\<lparr>timestamps := filter (\<lambda>ts. real_of_int ts > windowStart) (timestamps record)\<rparr>
      in if real (length (timestamps r1)) \<ge> maxRequests rl then (False, r1)
         else (let r2 = r1\<lparr>timestamps := timestamps r1 @ [now]\<rparr>
               in (True, r2\<lparr>count := real (length (timestamps r2))\<rparr>)))"

definition tokenBucket :: "RateLimiter \<Rightarrow> RequestRecord \<Rightarrow> int \<Rightarrow> bool \<times> RequestRecord" where
  "tokenBucket rl record now =
     (let timePassed = now - orDefault (lastRefill record) now;
          tokensToAdd = dbl (dbl (real_of_int timePassed / windowMs rl) * maxRequests rl);
          refilled = min (maxRequests rl) (dbl (orDefault (tokens record) 0 + tokensToAdd));
          r1 = record\<lparr>tokens := Some refilled, lastRefill := Some now\<rparr>
      in if refilled < 1 then (False, r1)
         else (True, r1\<lparr>tokens := Some (dbl (refilled - 1))\<rparr>))"

definition leakyBucket :: "RateLimiter \<Rightarrow> RequestRecord \<Rightarrow> int \<Rightarrow> bool \<times> RequestRecord" where
  "leakyBucket rl record now =
     (let timePassed = now - orDefault (lastRefill record) now;
          leakedRequests = dbl (dbl (real_of_int timePassed / windowMs rl) * maxRequests rl);
          r1 = record\<lparr>count := max 0 (dbl (count record - leakedRequests)),
                       lastRefill := Some now\<rparr>
      in if count r1 \<ge> maxRequests rl then (False, r1)
         else (True, r1\<lparr>count := dbl (count r1 + 1)\<rparr>))"

definition applyAlgorithm :: "RateLimiter \<Rightarrow> RequestRecord \<Rightarrow> int \<Rightarrow> bool \<times> RequestRecord" where
  "applyAlgorithm rl record now =
     (case algorithm rl of
        FIXED_WINDOW \<Rightarrow> fixedWindow rl record now
      | SLIDING_WINDOW \<Rightarrow> slidingWindow rl record now
      | TOKEN_BUCKET \<Rightarrow> tokenBucket rl record now
      | LEAKY_BUCKET \<Rightarrow> leakyBucket rl record now)"

text \<open>
  \<open>allowRequest\<close>: the record of the key is created on first sight, the selected
  algorithm updates it in place, and the decision is returned.
\<close>

definition allowRequest :: "int \<Rightarrow> RequestContext \<Rightarrow> RateLimiter \<Rightarrow> bool \<times> RateLimiter" where
  "allowRequest now context rl =
     (let key = keyGenerator rl context;
          record = (case records rl key of None \<Rightarrow> createRecord rl now | Some r \<Rightarrow> r);
          (allowed, record') = applyAlgorithm rl record now
      in (allowed, rl\<lparr>records := (records rl)(key \<mapsto> record')\<rparr>))"

section \<open>Rounding to a double: basic facts\<close>

lemma quantum_pos: "0 < quantum x"
  by (simp add: quantum_def)

lemma roundHalfEven_of_int [simp]: "roundHalfEven (real_of_int k) = k"
  by (simp add: roundHalfEven_def)

lemma dbl_zero [simp]: "dbl 0 = 0"
  by (simp add: dbl_def)

lemma dbl_exact:
  assumes "x / quantum x = real_of_int k"
  shows "dbl x = x"
proof (cases "x = 0")
  case True
  then show ?thesis by simp
next
  case False
  from assms have "x = real_of_int k * quantum x"
    using quantum_pos [of x] by (simp add: field_simps)
  with False assms show ?thesis by (simp add: dbl_def)
qed

lemma binade_eq:
  assumes "x \<noteq> 0" and "2 powr real_of_int e \<le> \<bar>x\<bar>" and "\<bar>x\<bar> < 2 powr real_of_int (e + 1)"
    and "- 1022 \<le> e"
  shows "binade x = e"
proof -
  from assms(1) have "0 < \<bar>x\<bar>" by simp
  then have "\<lfloor>log 2 \<bar>x\<bar>\<rfloor> = e"
    using assms(2,3) by (simp add: floor_log_eq_powr_iff)
  with assms(4) show ?thesis by (simp add: binade_def)
qed

lemma binade_log:
  assumes "x \<noteq> 0"
  shows "2 powr real_of_int \<lfloor>log 2 \<bar>x\<bar>\<rfloor> \<le> \<bar>x\<bar>"
    and "\<bar>x\<bar> < 2 powr real_of_int (\<lfloor>log 2 \<bar>x\<bar>\<rfloor> + 1)"
proof -
  from assms have "0 < \<bar>x\<bar>" by simp
  then have "2 powr real_of_int \<lfloor>log 2 \<bar>x\<bar>\<rfloor> \<le> \<bar>x\<bar> \<and> \<bar>x\<bar> < 2 powr real_of_int (\<lfloor>log 2 \<bar>x\<bar>\<rfloor> + 1)"
    using floor_log_eq_powr_iff [of "\<bar>x\<bar>" 2 "\<lfloor>log 2 \<bar>x\<bar>\<rfloor>"] by simp
  then show "2 powr real_of_int \<lfloor>log 2 \<bar>x\<bar>\<rfloor> \<le> \<bar>x\<bar>"
    and "\<bar>x\<bar> < 2 powr real_of_int (\<lfloor>log 2 \<bar>x\<bar>\<rfloor> + 1)" by simp_all
qed

text \<open>An integer times a power of two that needs at most 53 bits is a double.\<close>

lemma dbl_int_pow2:
  assumes "\<bar>k\<bar> < 2 ^ 53" and "- 1074 \<le> j"
  shows "dbl (real_of_int k * 2 powr real_of_int j) = real_of_int k * 2 powr real_of_int j"
proof (cases "k = 0")
  case True
  then show ?thesis by simp
next
  case False
  let ?x = "real_of_int k * 2 powr real_of_int j"
  have x0: "?x \<noteq> 0" using False by simp
  let ?l = "\<lfloor>log 2 \<bar>?x\<bar>\<rfloor>"
  have absx: "\<bar>?x\<bar> = real_of_int \<bar>k\<bar> * 2 powr real_of_int j"
    by (simp add: abs_mult)
  have "real_of_int \<bar>k\<bar> < 2 ^ 53"
    using assms(1) by (metis of_int_less_numeral_power_cancel_iff)
  then have "\<bar>?x\<bar> < 2 ^ 53 * 2 powr real_of_int j"
    unfolding absx by simp
  also have "\<dots> = 2 powr real_of_int (j + 53)"
    by (simp add: powr_add powr_realpow [symmetric])
  finally have up: "\<bar>?x\<bar> < 2 powr real_of_int (j + 53)" .
  from binade_log(1) [OF x0] up
  have "2 powr real_of_int ?l < 2 powr real_of_int (j + 53)" by linarith
  then have "?l < j + 53" by simp
  with assms(2) have b: "binade ?x \<le> j + 52" by (simp add: binade_def)
  define d where "d = nat (j + 52 - binade ?x)"
  from b have d: "int d = j + 52 - binade ?x" by (simp add: d_def)
  have "?x / quantum ?x = real_of_int k * 2 powr (real_of_int j - real_of_int (binade ?x - 52))"
    by (simp add: quantum_def powr_diff)
  also have "real_of_int j - real_of_int (binade ?x - 52) = real d"
    using d by linarith
  also have "real_of_int k * 2 powr real d = real_of_int (k * 2 ^ d)"
    by (simp add: powr_realpow)
  finally show ?thesis by (rule dbl_exact)
qed

lemma dbl_of_int:
  assumes "\<bar>n\<bar> < 2 ^ 53"
  shows "dbl (real_of_int n) = real_of_int n"
  using dbl_int_pow2 [OF assms, of 0] by simp

lemma dbl_of_nat:
  assumes "n < 2 ^ 53"
  shows "dbl (real n) = real n"
proof -
  from assms have "\<bar>int n\<bar> < 2 ^ 53"
    by (metis abs_of_nat of_nat_less_numeral_power_cancel_iff)
  from dbl_of_int [OF this] show ?thesis by simp
qed

lemma dbl_one [simp]: "dbl 1 = 1"
  using dbl_of_int [of 1] by simp

lemma dbl_numeral:
  assumes "(numeral n :: int) < 2 ^ 53"
  shows "dbl (numeral n) = numeral n"
proof -
  from assms have "\<bar>numeral n :: int\<bar> < 2 ^ 53" by simp
  from dbl_of_int [OF this] show ?thesis by simp
qed

section \<open>Rounding to a double: bounds\<close>

lemma pow2_less_iff: "(2::real) powr real_of_int a < 2 powr real_of_int b \<longleftrightarrow> a < b"
proof -
  have "(1::real) < 2" by simp
  from powr_less_cancel_iff [OF this] show ?thesis by (simp only: of_int_less_iff)
qed

lemma pow2_le_iff: "(2::real) powr real_of_int a \<le> 2 powr real_of_int b \<longleftrightarrow> a \<le> b"
proof -
  have "(1::real) < 2" by simp
  from powr_le_cancel_iff [OF this] show ?thesis by (simp only: of_int_le_iff)
qed

lemma roundHalfEven_le:
  assumes "z \<le> real_of_int c"
  shows "roundHalfEven z \<le> c"
proof -
  from assms have "\<lfloor>z\<rfloor> \<le> \<lfloor>real_of_int c\<rfloor>" by (rule floor_mono)
  then have f: "\<lfloor>z\<rfloor> \<le> c" by simp
  show ?thesis
  proof (cases "z - real_of_int \<lfloor>z\<rfloor> < 1 / 2")
    case True
    with f show ?thesis by (simp add: roundHalfEven_def)
  next
    case False
    have "\<lfloor>z\<rfloor> \<noteq> c"
    proof
      assume "\<lfloor>z\<rfloor> = c"
      with assms have "z - real_of_int \<lfloor>z\<rfloor> \<le> 0" by simp
      with False show False by simp
    qed
    with f have "\<lfloor>z\<rfloor> + 1 \<le> c" by simp
    with f show ?thesis by (simp add: roundHalfEven_def Let_def)
  qed
qed

lemma roundHalfEven_ge:
  assumes "real_of_int a \<le> z"
  shows "a \<le> roundHalfEven z"
proof -
  from assms have "a \<le> \<lfloor>z\<rfloor>" by (simp add: le_floor_iff)
  then show ?thesis by (simp add: roundHalfEven_def Let_def)
qed

lemma roundHalfEven_near:
  "real_of_int (roundHalfEven z) - z \<le> 1 / 2"
proof -
  have a: "real_of_int \<lfloor>z\<rfloor> \<le> z" "z < real_of_int \<lfloor>z\<rfloor> + 1" by linarith+
  consider (lo) "z - real_of_int \<lfloor>z\<rfloor> < 1 / 2" | (hi) "z - real_of_int \<lfloor>z\<rfloor> > 1 / 2"
    | (eq) "z - real_of_int \<lfloor>z\<rfloor> = 1 / 2" by linarith
  then show ?thesis
  proof cases
    case lo
    then have "roundHalfEven z = \<lfloor>z\<rfloor>" by (simp add: roundHalfEven_def)
    with a show ?thesis by linarith
  next
    case hi
    then have "roundHalfEven z = \<lfloor>z\<rfloor> + 1" by (simp add: roundHalfEven_def Let_def)
    with hi show ?thesis by simp
  next
    case eq
    then have "roundHalfEven z = \<lfloor>z\<rfloor> \<or> roundHalfEven z = \<lfloor>z\<rfloor> + 1"
      by (simp add: roundHalfEven_def Let_def)
    with eq a show ?thesis by auto
  qed
qed

lemma abs_div_quantum_less:
  assumes "x \<noteq> 0"
  shows "\<bar>x / quantum x\<bar> < 2 ^ 53"
proof -
  have "\<lfloor>log 2 \<bar>x\<bar>\<rfloor> \<le> binade x" by (simp add: binade_def)
  then have "real_of_int (\<lfloor>log 2 \<bar>x\<bar>\<rfloor> + 1) \<le> real_of_int (binade x + 1)" by simp
  then have "(2::real) powr real_of_int (\<lfloor>log 2 \<bar>x\<bar>\<rfloor> + 1) \<le> 2 powr real_of_int (binade x + 1)"
    by (simp only: pow2_le_iff of_int_le_iff)
  with binade_log(2) [OF assms] have "\<bar>x\<bar> < 2 powr real_of_int (binade x + 1)" by linarith
  also have "2 powr real_of_int (binade x + 1) = 2 ^ 53 * quantum x"
  proof -
    have "real_of_int (binade x + 1) = real 53 + real_of_int (binade x - 52)" by simp
    then show ?thesis
      by (simp only: powr_add powr_realpow quantum_def)
  qed
  finally have "\<bar>x\<bar> / quantum x < 2 ^ 53"
    using quantum_pos [of x] by (simp add: field_simps)
  then show ?thesis using quantum_pos [of x] by (simp add: abs_divide)
qed

lemma dbl_nonneg:
  assumes "0 \<le> x"
  shows "0 \<le> dbl x"
proof (cases "x = 0")
  case True
  then show ?thesis by simp
next
  case False
  from assms quantum_pos [of x] have "real_of_int 0 \<le> x / quantum x" by simp
  then have "0 \<le> roundHalfEven (x / quantum x)" by (rule roundHalfEven_ge)
  with False quantum_pos [of x] show ?thesis by (simp add: dbl_def)
qed

text \<open>Rounding twice is rounding once: the result of \<open>dbl\<close> is a double.\<close>

lemma dbl_idem: "dbl (dbl x) = dbl x"
proof (cases "x = 0")
  case True
  then show ?thesis by simp
next
  case False
  define k where "k = roundHalfEven (x / quantum x)"
  define j where "j = binade x - 52"
  have j: "- 1074 \<le> j" by (simp add: j_def binade_def)
  have d: "dbl x = real_of_int k * 2 powr real_of_int j"
    using False by (simp add: dbl_def k_def j_def quantum_def)
  from abs_div_quantum_less [OF False]
  have "x / quantum x \<le> 2 ^ 53" and "- (2 ^ 53) \<le> x / quantum x"
    by linarith+
  then have "x / quantum x \<le> real_of_int (2 ^ 53)" and "real_of_int (- (2 ^ 53)) \<le> x / quantum x"
    by simp_all
  then have kb: "k \<le> 2 ^ 53" "- (2 ^ 53) \<le> k"
    unfolding k_def by (simp_all only: roundHalfEven_le roundHalfEven_ge)
  show ?thesis
  proof (cases "\<bar>k\<bar> < 2 ^ 53")
    case True
    from dbl_int_pow2 [OF True j] show ?thesis by (simp only: d)
  next
    case False
    with kb have "k = 2 ^ 53 \<or> k = - (2 ^ 53)" by linarith
    then obtain s :: int where s: "s = 1 \<or> s = - 1" and k: "k = s * 2 ^ 53" by auto
    have "real_of_int k * 2 powr real_of_int j = real_of_int s * (2 powr real 53 * 2 powr real_of_int j)"
      by (simp add: k powr_realpow)
    also have "2 powr real 53 * 2 powr real_of_int j = 2 powr real_of_int (j + 53)"
    proof -
      have "real_of_int (j + 53) = real 53 + real_of_int j" by simp
      then show ?thesis by (simp only: powr_add)
    qed
    finally have d': "dbl x = real_of_int s * 2 powr real_of_int (j + 53)"
      by (simp only: d)
    from s have "\<bar>s\<bar> < 2 ^ 53" by auto
    moreover from j have "- 1074 \<le> j + 53" by simp
    ultimately have "dbl (real_of_int s * 2 powr real_of_int (j + 53))
        = real_of_int s * 2 powr real_of_int (j + 53)" by (rule dbl_int_pow2)
    then show ?thesis by (simp only: d')
  qed
qed

text \<open>A positive number at most \<open>1 + 2^-53\<close> rounds to at most 1.\<close>

lemma dbl_le_one:
  assumes "0 < x" and "x \<le> 1 + 1 / 2 ^ 53"
  shows "dbl x \<le> 1"
proof (cases "1 \<le> x")
  case True
  from assms(1) have x0: "x \<noteq> 0" by simp
  have "(1::real) / 2 ^ 53 < 1" by simp
  with assms(2) have "x < 2" by linarith
  with True have b: "binade x = 0"
    by (intro binade_eq) (simp_all add: x0)
  then have q: "quantum x = 1 / 2 ^ 52"
    by (simp add: quantum_def powr_minus_divide powr_realpow [symmetric])
  define z where "z = x * 2 ^ 52"
  have zlo: "2 ^ 52 \<le> z" using True by (simp add: z_def)
  have zhi: "z \<le> 2 ^ 52 + 1 / 2" using assms(2) by (simp add: z_def field_simps)
  from zlo zhi have fl: "\<lfloor>z\<rfloor> = 2 ^ 52"
    by (intro floor_unique) simp_all
  have "roundHalfEven z = 2 ^ 52"
    using zhi fl by (simp add: roundHalfEven_def Let_def)
  moreover have "x / quantum x = z" by (simp add: q z_def)
  ultimately have "dbl x = real_of_int (2 ^ 52) * (1 / 2 ^ 52)"
    using x0 by (simp only: dbl_def q if_False)
  then show ?thesis by simp
next
  case False
  from assms(1) have x0: "x \<noteq> 0" by simp
  from False assms(1) have "\<bar>x\<bar> < 2 powr real_of_int 0" by simp
  with binade_log(1) [OF x0] have "2 powr real_of_int \<lfloor>log 2 \<bar>x\<bar>\<rfloor> < 2 powr real_of_int 0"
    by linarith
  then have "\<lfloor>log 2 \<bar>x\<bar>\<rfloor> < 0" by (simp only: pow2_less_iff)
  then have b: "binade x \<le> - 1" unfolding binade_def by linarith
  from abs_div_quantum_less [OF x0] have "x / quantum x \<le> 2 ^ 53" by linarith
  then have "x / quantum x \<le> real_of_int (2 ^ 53)" by simp
  then have "roundHalfEven (x / quantum x) \<le> 2 ^ 53" by (rule roundHalfEven_le)
  then have "real_of_int (roundHalfEven (x / quantum x)) \<le> 2 ^ 53"
    by (metis of_int_le_numeral_power_cancel_iff)
  then have "dbl x \<le> 2 ^ 53 * quantum x"
    using x0 quantum_pos [of x] by (simp add: dbl_def)
  also have "2 ^ 53 * quantum x = 2 powr real_of_int (binade x + 1)"
  proof -
    have "real_of_int (binade x + 1) = real 53 + real_of_int (binade x - 52)" by simp
    then show ?thesis
      by (simp only: powr_add powr_realpow quantum_def)
  qed
  also have "\<dots> \<le> 2 powr real_of_int 0"
  proof -
    from b have "binade x + 1 \<le> 0" by simp
    then show ?thesis by (simp only: pow2_le_iff)
  qed
  finally show ?thesis by simp
qed

text \<open>
  The relative error of rounding, for the reciprocal of a count: \<open>dbl (1 / m)\<close>
  times \<open>m\<close> is at most \<open>1 + 2^-53\<close>.
\<close>

lemma dbl_recip_times:
  assumes "1 \<le> m" and "m < 2 ^ 53"
  shows "dbl (1 / real m) * real m \<le> 1 + 1 / 2 ^ 53"
proof -
  let ?x = "1 / real m"
  from assms(1) have m0: "0 < real m" by simp
  then have x0: "?x \<noteq> 0" and xpos: "0 < ?x" by simp_all
  let ?l = "\<lfloor>log 2 \<bar>?x\<bar>\<rfloor>"
  have "real m < 2 ^ 53" using assms(2)
    by (metis of_nat_less_numeral_power_cancel_iff)
  then have "1 / 2 ^ 53 < ?x" using m0 by (simp add: field_simps)
  then have "2 powr real_of_int (- 53) < \<bar>?x\<bar>"
    by (simp add: powr_minus_divide powr_realpow [symmetric])
  with binade_log(2) [OF x0]
  have "2 powr real_of_int (- 53) < 2 powr real_of_int (?l + 1)" by linarith
  then have "- 53 < ?l + 1" by (simp only: pow2_less_iff)
  then have b: "binade ?x = ?l" by (simp add: binade_def)
  have q: "quantum ?x \<le> ?x / 2 ^ 52"
  proof -
    have "quantum ?x = 2 powr real_of_int ?l / 2 powr real 52"
      by (simp add: quantum_def b powr_diff)
    also have "\<dots> = 2 powr real_of_int ?l / 2 ^ 52"
      by (simp add: powr_realpow)
    also have "\<dots> \<le> \<bar>?x\<bar> / 2 ^ 52"
      using binade_log(1) [OF x0] by (simp add: divide_right_mono)
    finally show ?thesis using xpos by simp
  qed
  have "dbl ?x - ?x = (real_of_int (roundHalfEven (?x / quantum ?x)) - ?x / quantum ?x) * quantum ?x"
    using x0 quantum_pos [of ?x] by (simp add: dbl_def field_simps)
  also have "\<dots> \<le> 1 / 2 * quantum ?x"
    using roundHalfEven_near [of "?x / quantum ?x"] quantum_pos [of ?x]
    by (intro mult_right_mono) simp_all
  also have "\<dots> \<le> 1 / 2 * (?x / 2 ^ 52)"
    using q by simp
  finally have "dbl ?x \<le> ?x + ?x / 2 ^ 53" by simp
  then have "dbl ?x * real m \<le> (?x + ?x / 2 ^ 53) * real m"
    using m0 by (intro mult_right_mono) simp_all
  also have "\<dots> = 1 + 1 / 2 ^ 53" using m0 by (simp add: field_simps)
  finally show ?thesis .
qed

lemma dbl_at:
  assumes "x \<noteq> 0" and "2 powr real_of_int e \<le> \<bar>x\<bar>" and "\<bar>x\<bar> < 2 powr real_of_int (e + 1)"
    and "- 1022 \<le> e"
  shows "dbl x = real_of_int (roundHalfEven (x / 2 powr real_of_int (e - 52)))
                   * 2 powr real_of_int (e - 52)"
  using assms(1) binade_eq [OF assms] by (simp add: dbl_def quantum_def)

section \<open>Rounding to a double: monotonicity\<close>

lemma roundHalfEven_mono:
  assumes "z \<le> z'"
  shows "roundHalfEven z \<le> roundHalfEven z'"
proof (cases "\<lfloor>z\<rfloor> = \<lfloor>z'\<rfloor>")
  case True
  with assms show ?thesis by (auto simp: roundHalfEven_def Let_def)
next
  case False
  from assms have "\<lfloor>z\<rfloor> \<le> \<lfloor>z'\<rfloor>" by (rule floor_mono)
  with False have st: "\<lfloor>z\<rfloor> + 1 \<le> \<lfloor>z'\<rfloor>" by simp
  have "z \<le> real_of_int (\<lfloor>z\<rfloor> + 1)" by linarith
  then have "roundHalfEven z \<le> \<lfloor>z\<rfloor> + 1" by (rule roundHalfEven_le)
  moreover have "real_of_int \<lfloor>z'\<rfloor> \<le> z'" by simp
  then have "\<lfloor>z'\<rfloor> \<le> roundHalfEven z'" by (rule roundHalfEven_ge)
  ultimately show ?thesis using st by linarith
qed

lemma roundHalfEven_minus: "roundHalfEven (- z) = - roundHalfEven z"
proof (cases "z = real_of_int \<lfloor>z\<rfloor>")
  case True
  then have "- z = real_of_int (- \<lfloor>z\<rfloor>)" by simp
  then have "roundHalfEven (- z) = - \<lfloor>z\<rfloor>" by (simp only: roundHalfEven_of_int)
  moreover from True have "roundHalfEven z = \<lfloor>z\<rfloor>" by (metis roundHalfEven_of_int)
  ultimately show ?thesis by simp
next
  case False
  have lo: "real_of_int \<lfloor>z\<rfloor> \<le> z" and hi: "z < real_of_int \<lfloor>z\<rfloor> + 1" by linarith+
  have lo': "real_of_int \<lfloor>z\<rfloor> < z"
    by (rule order.not_eq_order_implies_strict [OF False [THEN not_sym] lo])
  have fl: "\<lfloor>- z\<rfloor> = - \<lfloor>z\<rfloor> - 1"
  proof (rule floor_unique)
    show "real_of_int (- \<lfloor>z\<rfloor> - 1) \<le> - z" using hi by linarith
    show "- z < real_of_int (- \<lfloor>z\<rfloor> - 1) + 1" using lo' by linarith
  qed
  show ?thesis
    using lo' hi by (auto simp: roundHalfEven_def Let_def fl)
qed

lemma dbl_minus: "dbl (- x) = - dbl x"
  by (simp add: dbl_def quantum_def binade_def roundHalfEven_minus)

lemma binade_mono:
  assumes "0 < x" and "x \<le> y"
  shows "binade x \<le> binade y"
proof -
  from assms have "log 2 \<bar>x\<bar> \<le> log 2 \<bar>y\<bar>" by simp
  then have "\<lfloor>log 2 \<bar>x\<bar>\<rfloor> \<le> \<lfloor>log 2 \<bar>y\<bar>\<rfloor>" by (rule floor_mono)
  then show ?thesis by (simp add: binade_def)
qed

lemma pow53_quantum: "2 ^ 53 * quantum x = 2 powr real_of_int (binade x + 1)"
proof -
  have "real_of_int (binade x + 1) = real 53 + real_of_int (binade x - 52)" by simp
  then show ?thesis
    by (simp only: powr_add powr_realpow quantum_def)
qed

lemma pow52_quantum: "2 ^ 52 * quantum x = 2 powr real_of_int (binade x)"
proof -
  have "real_of_int (binade x) = real 52 + real_of_int (binade x - 52)" by simp
  then show ?thesis
    by (simp only: powr_add powr_realpow quantum_def)
qed

lemma dbl_le_next_power:
  assumes "x \<noteq> 0"
  shows "dbl x \<le> 2 powr real_of_int (binade x + 1)"
proof -
  from abs_div_quantum_less [OF assms] have "x / quantum x \<le> 2 ^ 53" by linarith
  then have "x / quantum x \<le> real_of_int (2 ^ 53)" by simp
  then have "roundHalfEven (x / quantum x) \<le> 2 ^ 53" by (rule roundHalfEven_le)
  then have "real_of_int (roundHalfEven (x / quantum x)) \<le> 2 ^ 53"
    by (metis of_int_le_numeral_power_cancel_iff)
  then have "dbl x \<le> 2 ^ 53 * quantum x"
    using assms quantum_pos [of x] by (simp add: dbl_def)
  then show ?thesis by (simp only: pow53_quantum)
qed

lemma dbl_ge_power:
  assumes "0 < y" and "- 1022 < binade y"
  shows "2 powr real_of_int (binade y) \<le> dbl y"
proof -
  from assms(1) have y0: "y \<noteq> 0" by simp
  from assms(2) have b: "binade y = \<lfloor>log 2 \<bar>y\<bar>\<rfloor>"
    unfolding binade_def by linarith
  from binade_log(1) [OF y0] assms(1) have "2 powr real_of_int (binade y) \<le> y"
    by (simp add: b)
  then have "2 ^ 52 * quantum y \<le> y" by (simp only: pow52_quantum)
  then have "2 ^ 52 \<le> y / quantum y"
    using quantum_pos [of y] by (simp add: field_simps)
  then have "real_of_int (2 ^ 52) \<le> y / quantum y" by simp
  then have "2 ^ 52 \<le> roundHalfEven (y / quantum y)" by (rule roundHalfEven_ge)
  then have "2 ^ 52 \<le> real_of_int (roundHalfEven (y / quantum y))"
    by (metis of_int_numeral_le_iff numeral_power_le_of_int_cancel_iff)
  then have "2 ^ 52 * quantum y \<le> dbl y"
    using y0 quantum_pos [of y] by (simp add: dbl_def)
  then show ?thesis by (simp only: pow52_quantum)
qed

lemma dbl_mono_pos:
  assumes "0 < x" and "x \<le> y"
  shows "dbl x \<le> dbl y"
proof (cases "binade x = binade y")
  case True
  from assms have x0: "x \<noteq> 0" and y0: "y \<noteq> 0" by simp_all
  from True have q: "quantum y = quantum x" by (simp add: quantum_def)
  from assms(2) quantum_pos [of x] have "x / quantum x \<le> y / quantum x"
    by (simp add: divide_right_mono)
  then have "roundHalfEven (x / quantum x) \<le> roundHalfEven (y / quantum x)"
    by (rule roundHalfEven_mono)
  then have "real_of_int (roundHalfEven (x / quantum x)) * quantum x
      \<le> real_of_int (roundHalfEven (y / quantum x)) * quantum x"
    using quantum_pos [of x] by (simp add: mult_right_mono)
  with x0 y0 show ?thesis by (simp add: dbl_def q)
next
  case False
  from assms have x0: "x \<noteq> 0" and ypos: "0 < y" by simp_all
  from binade_mono [OF assms] False have lt: "binade x < binade y" by simp
  have "- 1022 \<le> binade x" by (simp add: binade_def)
  with lt have "- 1022 < binade y" by simp
  from dbl_ge_power [OF ypos this] have lower: "2 powr real_of_int (binade y) \<le> dbl y" .
  from lt have "binade x + 1 \<le> binade y" by simp
  then have "(2::real) powr real_of_int (binade x + 1) \<le> 2 powr real_of_int (binade y)"
    by (simp only: pow2_le_iff)
  with dbl_le_next_power [OF x0] lower show ?thesis by linarith
qed

lemma dbl_nonpos:
  assumes "x \<le> 0"
  shows "dbl x \<le> 0"
proof -
  from assms have "0 \<le> - x" by simp
  then have "0 \<le> dbl (- x)" by (rule dbl_nonneg)
  then show ?thesis by (simp add: dbl_minus)
qed

text \<open>Rounding keeps the order.\<close>

lemma dbl_mono:
  assumes "x \<le> y"
  shows "dbl x \<le> dbl y"
proof -
  consider (pos) "0 < x" | (neg) "y < 0" | (mid) "x \<le> 0" "0 \<le> y" by linarith
  then show ?thesis
  proof cases
    case pos
    from dbl_mono_pos [OF pos assms] show ?thesis .
  next
    case neg
    with assms have "0 < - y" and "- y \<le> - x" by simp_all
    then have "dbl (- y) \<le> dbl (- x)" by (rule dbl_mono_pos)
    then show ?thesis by (simp add: dbl_minus)
  next
    case mid
    from dbl_nonpos [OF mid(1)] dbl_nonneg [OF mid(2)] show ?thesis by linarith
  qed
qed

section \<open>Rounding to a double: computing a value\<close>

lemma roundHalfEven_nearest:
  assumes "real_of_int k - 1 / 2 < z" and "z < real_of_int k + 1 / 2"
  shows "roundHalfEven z = k"
proof (cases "real_of_int k \<le> z")
  case True
  with assms(2) have "\<lfloor>z\<rfloor> = k" by (intro floor_unique) linarith+
  with assms(2) show ?thesis by (simp add: roundHalfEven_def Let_def)
next
  case False
  with assms(1) have "\<lfloor>z\<rfloor> = k - 1" by (intro floor_unique) linarith+
  moreover from assms(1) have "\<not> z - real_of_int (k - 1) < 1 / 2"
    and "z - real_of_int (k - 1) > 1 / 2" by simp_all
  ultimately show ?thesis by (simp add: roundHalfEven_def Let_def)
qed

lemma pow2_neg: "(2::real) powr real_of_int (- int n) = 1 / 2 ^ n"
  by (simp add: powr_minus_divide powr_realpow)

text \<open>
  A number \<open>x\<close> with \<open>2^-n \<le> x < 2^(1-n)\<close> is rounded to the multiple of
  \<open>2^-(n+52)\<close> nearest to it.
\<close>

lemma dbl_below_two:
  assumes "1 \<le> x * 2 ^ n" and "x * 2 ^ n < 2" and "n \<le> 1022"
    and "real_of_int k - 1 / 2 < x * 2 ^ (n + 52)"
    and "x * 2 ^ (n + 52) < real_of_int k + 1 / 2"
  shows "dbl x = real_of_int k / 2 ^ (n + 52)"
proof -
  from assms(1) have "0 < x * 2 ^ n" by linarith
  then have xpos: "0 < x" by (simp add: zero_less_mult_iff)
  then have x0: "x \<noteq> 0" and ax: "\<bar>x\<bar> = x" by simp_all
  have a: "1 / 2 ^ n \<le> x" using assms(1) by (simp add: field_simps)
  have b: "x < 2 / 2 ^ n" using assms(2) by (simp add: field_simps)
  have lo: "2 powr real_of_int (- int n) \<le> \<bar>x\<bar>"
    by (simp only: pow2_neg ax a)
  have "(2::real) powr real_of_int (- int n + 1) = 2 powr real_of_int (- int n) * 2 powr 1"
    by (simp only: of_int_add of_int_1 powr_add)
  also have "\<dots> = 2 / 2 ^ n" by (simp only: pow2_neg) simp
  finally have e1: "(2::real) powr real_of_int (- int n + 1) = 2 / 2 ^ n" .
  have hi: "\<bar>x\<bar> < 2 powr real_of_int (- int n + 1)"
    by (simp only: e1 ax b)
  from assms(3) have ge: "- 1022 \<le> - int n" by simp
  have "- int n - 52 = - int (n + 52)" by simp
  then have q: "(2::real) powr real_of_int (- int n - 52) = 1 / 2 ^ (n + 52)"
    by (simp only: pow2_neg)
  note d = dbl_at [OF x0 lo hi ge, unfolded q]
  have r: "roundHalfEven (x * 2 ^ (n + 52)) = k"
    using assms(4) assms(5) by (rule roundHalfEven_nearest)
  have "x / (1 / 2 ^ (n + 52)) = x * 2 ^ (n + 52)" by simp
  with d r show ?thesis by simp
qed

section \<open>Rate limiter: one call\<close>

definition recordFor :: "RateLimiter \<Rightarrow> RequestContext \<Rightarrow> int \<Rightarrow> RequestRecord" where
  "recordFor rl context now =
     (case records rl (keyGenerator rl context) of None \<Rightarrow> createRecord rl now | Some r \<Rightarrow> r)"

lemma allowRequest_unfold:
  "allowRequest now context rl =
     (fst (applyAlgorithm rl (recordFor rl context now) now),
      rl\<lparr>records := (records rl)(keyGenerator rl context \<mapsto>
                         snd (applyAlgorithm rl (recordFor rl context now) now))\<rparr>)"
  by (simp add: allowRequest_def recordFor_def Let_def split_beta)

section \<open>Rate limiter: the token bucket\<close>

text \<open>\<open>n\<close> calls of \<open>allowRequest\<close> at the same instant, with their decisions.\<close>

primrec burst :: "nat \<Rightarrow> int \<Rightarrow> RequestContext \<Rightarrow> RateLimiter \<Rightarrow> bool list \<times> RateLimiter" where
  "burst 0 now context rl = ([], rl)"
| "burst (Suc n) now context rl =
     (fst (allowRequest now context rl)
        # fst (burst n now context (snd (allowRequest now context rl))),
      snd (burst n now context (snd (allowRequest now context rl))))"

lemma tokenBucket_same_instant:
  assumes "maxRequests rl = real m" and "m < 2 ^ 53" and "tokens r = Some (real j)"
    and "j \<le> m" and "lastRefill r = Some now"
  shows "tokenBucket rl r now =
           (if 1 \<le> j then (True, r\<lparr>tokens := Some (real (j - 1)), lastRefill := Some now\<rparr>)
            else (False, r\<lparr>tokens := Some 0, lastRefill := Some now\<rparr>))"
proof -
  from assms(2,4) have j: "j < 2 ^ 53" by simp
  have tp: "now - orDefault (lastRefill r) now = 0"
    by (simp add: assms(5) orDefault_def)
  have od: "orDefault (tokens r) 0 = real j"
    by (simp add: assms(3) orDefault_def)
  have refilled: "min (maxRequests rl) (dbl (orDefault (tokens r) 0
      + dbl (dbl (real_of_int 0 / windowMs rl) * maxRequests rl))) = real j"
    using assms(4) by (simp add: od assms(1) dbl_of_nat [OF j])
  show ?thesis
  proof (cases "1 \<le> j")
    case True
    then have "real j - 1 = real (j - 1)" by simp
    moreover from j have "j - 1 < 2 ^ 53" by simp
    ultimately have "dbl (real j - 1) = real (j - 1)" by (simp only: dbl_of_nat)
    with True refilled show ?thesis
      by (simp add: tokenBucket_def tp Let_def)
  next
    case False
    then have "j = 0" by simp
    with refilled show ?thesis
      by (simp add: tokenBucket_def tp Let_def)
  qed
qed

lemma recordFor_stored:
  "recordFor (rl\<lparr>records := (records rl)(keyGenerator rl context \<mapsto> r)\<rparr>) context now = r"
  by (simp add: recordFor_def)

lemma allowRequest_tokenBucket:
  assumes "algorithm rl = TOKEN_BUCKET"
  shows "allowRequest now context rl =
           (fst (tokenBucket rl (recordFor rl context now) now),
            rl\<lparr>records := (records rl)(keyGenerator rl context \<mapsto>
                               snd (tokenBucket rl (recordFor rl context now) now))\<rparr>)"
  using assms by (simp add: allowRequest_unfold applyAlgorithm_def)

lemma burst_drain:
  assumes "algorithm rl = TOKEN_BUCKET" and "maxRequests rl = real m" and "m < 2 ^ 53"
    and "recordFor rl context now = r" and "tokens r = Some (real j)" and "j \<le> m"
    and "lastRefill r = Some now"
  shows "fst (burst (Suc j) now context rl) = replicate j True @ [False]
         \<and> snd (burst (Suc j) now context rl)
             = rl\<lparr>records := (records rl)(keyGenerator rl context \<mapsto>
                                 r\<lparr>tokens := Some 0, lastRefill := Some now\<rparr>)\<rparr>"
  using assms
proof (induction j arbitrary: rl r)
  case 0
  from tokenBucket_same_instant [OF "0.prems"(2) "0.prems"(3), of r 0 now] "0.prems"
  have tb: "tokenBucket rl r now = (False, r\<lparr>tokens := Some 0, lastRefill := Some now\<rparr>)"
    by simp
  have step: "allowRequest now context rl
      = (False, rl\<lparr>records := (records rl)(keyGenerator rl context \<mapsto>
                     r\<lparr>tokens := Some 0, lastRefill := Some now\<rparr>)\<rparr>)"
    by (simp only: allowRequest_tokenBucket [OF "0.prems"(1)] "0.prems"(4) tb fst_conv snd_conv)
  show ?case
    by (simp only: burst.simps step fst_conv snd_conv replicate_0 append_Nil)
next
  case (Suc j)
  let ?r1 = "r\<lparr>tokens := Some (real j), lastRefill := Some now\<rparr>"
  let ?rl1 = "rl\<lparr>records := (records rl)(keyGenerator rl context \<mapsto> ?r1)\<rparr>"
  from tokenBucket_same_instant [OF Suc.prems(2) Suc.prems(3), of r "Suc j" now] Suc.prems
  have tb: "tokenBucket rl r now = (True, ?r1)" by simp
  have step: "allowRequest now context rl = (True, ?rl1)"
    by (simp only: allowRequest_tokenBucket [OF Suc.prems(1)] Suc.prems(4) tb fst_conv snd_conv)
  have "fst (burst (Suc j) now context ?rl1) = replicate j True @ [False]
      \<and> snd (burst (Suc j) now context ?rl1)
          = ?rl1\<lparr>records := (records ?rl1)(keyGenerator ?rl1 context \<mapsto>
                                 ?r1\<lparr>tokens := Some 0, lastRefill := Some now\<rparr>)\<rparr>"
  proof (rule Suc.IH)
    show "algorithm ?rl1 = TOKEN_BUCKET" using Suc.prems(1) by simp
    show "maxRequests ?rl1 = real m" using Suc.prems(2) by simp
    show "m < 2 ^ 53" by (rule Suc.prems(3))
    show "recordFor ?rl1 context now = ?r1" by (rule recordFor_stored)
    show "tokens ?r1 = Some (real j)" by simp
    show "j \<le> m" using Suc.prems(6) by simp
    show "lastRefill ?r1 = Some now" by simp
  qed
  then have ih1: "fst (burst (Suc j) now context ?rl1) = replicate j True @ [False]"
    and ih2: "snd (burst (Suc j) now context ?rl1)
          = rl\<lparr>records := (records rl)(keyGenerator rl context \<mapsto>
                                 r\<lparr>tokens := Some 0, lastRefill := Some now\<rparr>)\<rparr>"
    by simp_all
  have "burst (Suc (Suc j)) now context rl
      = (True # fst (burst (Suc j) now context ?rl1), snd (burst (Suc j) now context ?rl1))"
    by (simp only: burst.simps(2) [of "Suc j"] step fst_conv snd_conv)
  then show ?case
    by (simp only: ih1 ih2 fst_conv snd_conv replicate_Suc append_Cons)
qed

text \<open>
  The refill computed \<open>windowMs / max\<close> after the last refill: the quotient of the
  elapsed time by the window, rounded, times the capacity, rounded.
\<close>

definition refillAfter :: "RateLimiter \<Rightarrow> int \<Rightarrow> real" where
  "refillAfter rl d = dbl (dbl (real_of_int d / windowMs rl) * maxRequests rl)"

lemma refillAfter_bounds:
  assumes "maxRequests rl = real m" and "1 \<le> m" and "m < 2 ^ 53" and "0 < windowMs rl"
    and "real_of_int d * real m = windowMs rl"
  shows "0 \<le> refillAfter rl d" and "refillAfter rl d \<le> 1"
    and "dbl (refillAfter rl d) = refillAfter rl d"
proof -
  from assms(2) have m0: "0 < real m" by simp
  from assms(4,5) m0 have d0: "real_of_int d \<noteq> 0" by auto
  have q: "real_of_int d / windowMs rl = 1 / real m"
    using d0 m0 by (simp add: assms(5) [symmetric])
  let ?p = "dbl (1 / real m) * real m"
  from m0 have "0 \<le> dbl (1 / real m)" by (intro dbl_nonneg) simp
  with m0 have p0: "0 \<le> ?p" by simp
  have r: "refillAfter rl d = dbl ?p"
    by (simp only: refillAfter_def q assms(1))
  from p0 show "0 \<le> refillAfter rl d" by (simp only: r dbl_nonneg)
  show "refillAfter rl d \<le> 1"
  proof (cases "?p = 0")
    case True
    then have "dbl ?p = 0" by (simp only: dbl_zero)
    then have "dbl ?p \<le> 1" by simp
    then show ?thesis by (simp only: r)
  next
    case False
    have "0 < ?p"
      by (rule order.not_eq_order_implies_strict [OF False [THEN not_sym] p0])
    then have "dbl ?p \<le> 1"
      using dbl_recip_times [OF assms(2) assms(3)] by (rule dbl_le_one)
    then show ?thesis by (simp only: r)
  qed
  show "dbl (refillAfter rl d) = refillAfter rl d" by (simp only: r dbl_idem)
qed

lemma tokenBucket_after_wait:
  assumes "maxRequests rl = real m" and "1 \<le> m" and "m < 2 ^ 53" and "0 < windowMs rl"
    and "real_of_int d * real m = windowMs rl"
    and "tokens r = Some 0" and "lastRefill r = Some t0" and "t0 \<noteq> 0"
  shows "tokenBucket rl r (t0 + d) =
           (if refillAfter rl d = 1
            then (True, r\<lparr>tokens := Some 0, lastRefill := Some (t0 + d)\<rparr>)
            else (False, r\<lparr>tokens := Some (refillAfter rl d), lastRefill := Some (t0 + d)\<rparr>))"
proof -
  note b = refillAfter_bounds [OF assms(1-5)]
  have tp: "t0 + d - orDefault (lastRefill r) (t0 + d) = d"
    using assms(8) by (simp add: assms(7) orDefault_def)
  have od: "orDefault (tokens r) 0 = 0"
    by (simp add: assms(6) orDefault_def)
  from assms(2) have "1 \<le> real m" by simp
  with b(2) have "refillAfter rl d \<le> real m" by linarith
  then have refilled: "min (maxRequests rl) (dbl (orDefault (tokens r) 0
      + dbl (dbl (real_of_int d / windowMs rl) * maxRequests rl))) = refillAfter rl d"
    using b(3) by (simp add: od assms(1) refillAfter_def)
  show ?thesis
  proof (cases "refillAfter rl d = 1")
    case True
    with refilled show ?thesis
      by (simp add: tokenBucket_def tp Let_def)
  next
    case False
    with b(2) have "refillAfter rl d < 1" by simp
    with False refilled show ?thesis
      by (simp add: tokenBucket_def tp Let_def)
  qed
qed

lemma tokenBucket_below_one:
  assumes "1 \<le> maxRequests rl" and "tokens r = Some a" and "0 \<le> a" and "a < 1"
    and "dbl a = a" and "lastRefill r = Some now"
  shows "tokenBucket rl r now = (False, r\<lparr>tokens := Some a, lastRefill := Some now\<rparr>)"
proof -
  have tp: "now - orDefault (lastRefill r) now = 0"
    by (simp add: assms(6) orDefault_def)
  have od: "orDefault (tokens r) 0 = a"
    by (simp add: assms(2) orDefault_def)
  from assms(1,4) have "min (maxRequests rl) a = a" by simp
  then have "min (maxRequests rl) (dbl (orDefault (tokens r) 0
      + dbl (dbl (real_of_int 0 / windowMs rl) * maxRequests rl))) = a"
    by (simp add: od assms(5))
  with assms(4) show ?thesis
    by (simp add: tokenBucket_def tp Let_def)
qed

lemma roundHalfEven_eqI:
  assumes "real_of_int k \<le> z" and "z < real_of_int k + 1 / 2"
  shows "roundHalfEven z = k"
proof -
  from assms have "\<lfloor>z\<rfloor> = k" by (intro floor_unique) linarith+
  with assms(2) show ?thesis by (simp add: roundHalfEven_def Let_def)
qed

lemma fresh_bucket_burst:
  assumes "algorithm rl = TOKEN_BUCKET" and "maxRequests rl = real m" and "m < 2 ^ 53"
    and "records rl (keyGenerator rl context) = None"
  shows "fst (burst (Suc m) t0 context rl) = replicate m True @ [False]"
    and "snd (burst (Suc m) t0 context rl)
           = rl\<lparr>records := (records rl)(keyGenerator rl context \<mapsto>
                  (createRecord rl t0)\<lparr>tokens := Some 0, lastRefill := Some t0\<rparr>)\<rparr>"
proof -
  have rf: "recordFor rl context t0 = createRecord rl t0"
    by (simp add: recordFor_def assms(4))
  have tk: "tokens (createRecord rl t0) = Some (real m)"
    by (simp add: createRecord_def assms(2))
  have lr: "lastRefill (createRecord rl t0) = Some t0"
    by (simp add: createRecord_def)
  note bd = burst_drain [OF assms(1) assms(2) assms(3) rf tk order_refl lr]
  show "fst (burst (Suc m) t0 context rl) = replicate m True @ [False]"
    by (rule bd [THEN conjunct1])
  show "snd (burst (Suc m) t0 context rl)
           = rl\<lparr>records := (records rl)(keyGenerator rl context \<mapsto>
                  (createRecord rl t0)\<lparr>tokens := Some 0, lastRefill := Some t0\<rparr>)\<rparr>"
    by (rule bd [THEN conjunct2])
qed

lemma drained_bucket_wait:
  assumes "algorithm rl = TOKEN_BUCKET" and "maxRequests rl = real m" and "1 \<le> m"
    and "m < 2 ^ 53" and "0 < windowMs rl" and "real_of_int d * real m = windowMs rl"
    and "t0 \<noteq> 0" and "recordFor rl context (t0 + d) = r"
    and "tokens r = Some 0" and "lastRefill r = Some t0"
  shows "fst (burst 2 (t0 + d) context rl) = [refillAfter rl d = 1, False]"
proof -
  note b = refillAfter_bounds [OF assms(2) assms(3) assms(4) assms(5) assms(6)]
  note aw = tokenBucket_after_wait [OF assms(2) assms(3) assms(4) assms(5) assms(6)
      assms(9) assms(10) assms(7)]
  have two: "burst 2 (t0 + d) context rl =
      (fst (allowRequest (t0 + d) context rl)
         # fst (burst 1 (t0 + d) context (snd (allowRequest (t0 + d) context rl))),
       snd (burst 1 (t0 + d) context (snd (allowRequest (t0 + d) context rl))))"
    using burst.simps(2) [of 1 "t0 + d" "context" rl] by (simp only: Suc_1)
  have one: "fst (burst 1 now context rl') = [fst (allowRequest now context rl')]"
    for now rl'
    using burst.simps(2) [of 0 now "context" rl'] by (simp only: One_nat_def burst.simps(1) fst_conv)
  show ?thesis
  proof (cases "refillAfter rl d = 1")
    case True
    let ?r1 = "r\<lparr>tokens := Some 0, lastRefill := Some (t0 + d)\<rparr>"
    let ?rl1 = "rl\<lparr>records := (records rl)(keyGenerator rl context \<mapsto> ?r1)\<rparr>"
    have tb1: "tokenBucket rl r (t0 + d) = (True, ?r1)"
      by (simp only: aw True simp_thms if_True)
    have s1: "allowRequest (t0 + d) context rl = (True, ?rl1)"
      by (simp only: allowRequest_tokenBucket [OF assms(1)] assms(8) tb1 fst_conv snd_conv)
    have a2: "algorithm ?rl1 = TOKEN_BUCKET" using assms(1) by simp
    have m2: "maxRequests ?rl1 = real m" using assms(2) by simp
    have rf1: "recordFor ?rl1 context (t0 + d) = ?r1" by (rule recordFor_stored)
    have "fst (tokenBucket ?rl1 ?r1 (t0 + d)) = False"
      using tokenBucket_same_instant [OF m2 assms(4), of ?r1 0 "t0 + d"] by simp
    then have f2: "fst (allowRequest (t0 + d) context ?rl1) = False"
      by (simp only: allowRequest_tokenBucket [OF a2] rf1 fst_conv)
    show ?thesis
      by (simp only: two one s1 f2 fst_conv snd_conv True simp_thms)
  next
    case False
    let ?r1 = "r\<lparr>tokens := Some (refillAfter rl d), lastRefill := Some (t0 + d)\<rparr>"
    let ?rl1 = "rl\<lparr>records := (records rl)(keyGenerator rl context \<mapsto> ?r1)\<rparr>"
    from False b(2) have lt: "refillAfter rl d < 1" by simp
    have tb1: "tokenBucket rl r (t0 + d) = (False, ?r1)"
      by (simp only: aw False if_False)
    have s1: "allowRequest (t0 + d) context rl = (False, ?rl1)"
      by (simp only: allowRequest_tokenBucket [OF assms(1)] assms(8) tb1 fst_conv snd_conv)
    have a2: "algorithm ?rl1 = TOKEN_BUCKET" using assms(1) by simp
    from assms(2,3) have m2: "1 \<le> maxRequests ?rl1" by simp
    have rf1: "recordFor ?rl1 context (t0 + d) = ?r1" by (rule recordFor_stored)
    have "fst (tokenBucket ?rl1 ?r1 (t0 + d)) = False"
      using tokenBucket_below_one [OF m2 _ b(1) lt b(3), of ?r1 "t0 + d"] by simp
    then have f2: "fst (allowRequest (t0 + d) context ?rl1) = False"
      by (simp only: allowRequest_tokenBucket [OF a2] rf1 fst_conv)
    show ?thesis
      by (simp only: two one s1 f2 fst_conv snd_conv False)
  qed
qed

text \<open>A token-bucket limiter with the given window and capacity, keyed by the URL.\<close>

definition tbLimiter :: "real \<Rightarrow> real \<Rightarrow> RateLimiter" where
  "tbLimiter w m =
     newRateLimiter \<lparr>cfg_algorithm = Some TOKEN_BUCKET, cfg_windowMs = Some w,
                     cfg_maxRequests = Some m, cfg_keyGenerator = None\<rparr>"

lemma tbLimiter_fields:
  assumes "w \<noteq> 0" and "m \<noteq> 0"
  shows "algorithm (tbLimiter w m) = TOKEN_BUCKET" and "windowMs (tbLimiter w m) = w"
    and "maxRequests (tbLimiter w m) = m"
    and "records (tbLimiter w m) (keyGenerator (tbLimiter w m) context) = None"
  using assms by (simp_all add: tbLimiter_def newRateLimiter_def orDefault_def)

lemma dbl_recip_49: "dbl (1 / 49) = 5882252574524729 / 2 ^ 58"
proof -
  have p6: "(2::real) powr real_of_int (- 6) = 1 / 2 ^ 6"
    by (simp add: powr_minus_divide powr_realpow [symmetric])
  have p5: "(2::real) powr real_of_int (- 6 + 1) = 1 / 2 ^ 5"
    by (simp add: powr_minus_divide powr_realpow [symmetric])
  have p58: "(2::real) powr real_of_int (- 6 - 52) = 1 / 2 ^ 58"
    by (simp add: powr_minus_divide powr_realpow [symmetric])
  have "dbl (1 / 49) = real_of_int (roundHalfEven ((1 / 49) / 2 powr real_of_int (- 6 - 52)))
      * 2 powr real_of_int (- 6 - 52)"
    by (rule dbl_at) (simp_all only: p6 p5, simp_all)
  moreover have "roundHalfEven ((1 / 49) / (1 / 2 ^ 58)) = 5882252574524729"
    by (rule roundHalfEven_eqI) simp_all
  ultimately show ?thesis by (simp only: p58)
qed

lemma refill_49: "dbl (dbl (1 / 49) * 49) = 9007199254740991 / 2 ^ 53"
proof -
  let ?p = "288230376151711721 / 2 ^ 58 :: real"
  have p: "dbl (1 / 49) * 49 = ?p" by (simp only: dbl_recip_49)
  have p1: "(2::real) powr real_of_int (- 1) = 1 / 2"
    by (simp add: powr_minus_divide)
  have p0: "(2::real) powr real_of_int (- 1 + 1) = 1" by simp
  have p53: "(2::real) powr real_of_int (- 1 - 52) = 1 / 2 ^ 53"
    by (simp add: powr_minus_divide powr_realpow [symmetric])
  have "dbl ?p = real_of_int (roundHalfEven (?p / 2 powr real_of_int (- 1 - 52)))
      * 2 powr real_of_int (- 1 - 52)"
    by (rule dbl_at) (simp_all only: p1 p0, simp_all)
  moreover have "roundHalfEven (?p / (1 / 2 ^ 53)) = 9007199254740991"
    by (rule roundHalfEven_eqI) simp_all
  ultimately show ?thesis by (simp only: p p53)
qed

text \<open>
  C5 (amended). A token bucket of capacity \<open>m\<close> (a positive integer below \<open>2^53\<close>)
  and window \<open>windowMs\<close>, for a key with no record yet, at a clock reading \<open>t0\<close>
  other than 0: \<open>m\<close> immediate calls of \<open>allowRequest\<close> are admitted and the next
  immediate call is denied.  After waiting \<open>d = windowMs / m\<close> milliseconds, at
  most one further request is admitted: the refill computed in double arithmetic,
  \<open>(d / windowMs) * m\<close> rounded after each operation, never exceeds 1, the request
  is admitted exactly when it equals 1, and the next immediate request is denied
  either way.
\<close>

theorem token_bucket_burst_and_refill:
  assumes "algorithm rl = TOKEN_BUCKET" and "maxRequests rl = real m" and "1 \<le> m"
    and "m < 2 ^ 53" and "0 < windowMs rl"
    and "records rl (keyGenerator rl context) = None"
    and "real_of_int d * real m = windowMs rl" and "t0 \<noteq> 0"
  shows "fst (burst (Suc m) t0 context rl) = replicate m True @ [False]
         \<and> refillAfter rl d \<le> 1
         \<and> fst (burst 2 (t0 + d) context (snd (burst (Suc m) t0 context rl)))
             = [refillAfter rl d = 1, False]"
proof -
  let ?rec = "(createRecord rl t0)\<lparr>tokens := Some 0, lastRefill := Some t0\<rparr>"
  let ?drained = "rl\<lparr>records := (records rl)(keyGenerator rl context \<mapsto> ?rec)\<rparr>"
  note fb = fresh_bucket_burst [OF assms(1) assms(2) assms(4) assms(6), of t0]
  have a1: "algorithm ?drained = TOKEN_BUCKET" using assms(1) by simp
  have m1: "maxRequests ?drained = real m" using assms(2) by simp
  have w1: "0 < windowMs ?drained" using assms(5) by simp
  have e1: "real_of_int d * real m = windowMs ?drained" using assms(7) by simp
  have ra: "refillAfter ?drained d = refillAfter rl d" by (simp add: refillAfter_def)
  have rf0: "recordFor ?drained context (t0 + d) = ?rec" by (rule recordFor_stored)
  have t0': "tokens ?rec = Some 0" by simp
  have l0: "lastRefill ?rec = Some t0" by simp
  have "fst (burst 2 (t0 + d) context ?drained) = [refillAfter ?drained d = 1, False]"
    by (rule drained_bucket_wait [OF a1 m1 assms(3) assms(4) w1 e1 assms(8) rf0 t0' l0])
  then have after: "fst (burst 2 (t0 + d) context (snd (burst (Suc m) t0 context rl)))
      = [refillAfter rl d = 1, False]"
    by (simp only: fb(2) ra)
  from fb(1) refillAfter_bounds(2) [OF assms(2) assms(3) assms(4) assms(5) assms(7)] after
  show ?thesis by (intro conjI)
qed

theorem token_bucket_burst_and_refill_witness:
  "fst (burst 3 1000 ctx0 (tbLimiter 1000 2)) = [True, True, False]
   \<and> fst (burst 2 1500 ctx0 (snd (burst 3 1000 ctx0 (tbLimiter 1000 2)))) = [True, False]"
proof -
  have w: "(1000::real) \<noteq> 0" and m: "(2::real) \<noteq> 0" by simp_all
  note f = tbLimiter_fields [OF w m]
  have h2: "maxRequests (tbLimiter 1000 2) = real 2" by (simp add: f(3))
  have h3: "1 \<le> (2::nat)" by simp
  have h4: "(2::nat) < 2 ^ 53" by simp
  have h5: "0 < windowMs (tbLimiter 1000 2)" by (simp add: f(2))
  have h7: "real_of_int 500 * real 2 = windowMs (tbLimiter 1000 2)" by (simp add: f(2))
  have h8: "(1000::int) \<noteq> 0" by simp
  have half: "dbl (1 / 2) = 1 / 2"
    using dbl_int_pow2 [of 1 "- 1"] by (simp add: powr_minus_divide)
  have r1: "refillAfter (tbLimiter 1000 2) 500 = 1"
    by (simp add: refillAfter_def f(2) f(3) half)
  have e3: "Suc 2 = 3" by simp
  have e: "(1000::int) + 500 = 1500" by simp
  have rep: "replicate 2 True @ [False] = [True, True, False]"
    by (simp add: numeral_2_eq_2)
  from token_bucket_burst_and_refill [OF f(1) h2 h3 h4 h5 f(4) [of ctx0] h7 h8]
  show ?thesis by (simp only: e3 e r1 rep simp_thms)
qed

text \<open>
  With a window of 4900 ms and capacity 49 the wait is 100 ms, and the refill
  computed after it is \<open>(100 / 4900) * 49 = 0.9999999999999999\<close> in double
  arithmetic: after the 49 admitted requests and the wait, the request is denied.
\<close>

theorem token_bucket_refill_counterexample:
  "real_of_int 100 * 49 = windowMs (tbLimiter 4900 49)
   \<and> fst (burst 50 1000 ctx0 (tbLimiter 4900 49)) = replicate 49 True @ [False]
   \<and> fst (burst 2 1100 ctx0 (snd (burst 50 1000 ctx0 (tbLimiter 4900 49)))) = [False, False]"
proof -
  let ?lim = "tbLimiter 4900 49"
  have w: "(4900::real) \<noteq> 0" and m: "(49::real) \<noteq> 0" by simp_all
  note f = tbLimiter_fields [OF w m]
  let ?rec = "(createRecord ?lim 1000)\<lparr>tokens := Some 0, lastRefill := Some 1000\<rparr>"
  let ?drained = "?lim\<lparr>records := (records ?lim)(keyGenerator ?lim ctx0 \<mapsto> ?rec)\<rparr>"
  have h2: "maxRequests ?lim = real 49" by (simp add: f(3))
  have h3: "1 \<le> (49::nat)" by simp
  have h4: "(49::nat) < 2 ^ 53" by simp
  have h7: "real_of_int 100 * 49 = windowMs ?lim" by (simp add: f(2))
  note fb = fresh_bucket_burst [OF f(1) h2 h4 f(4) [of ctx0], of 1000]
  have e50: "Suc 49 = 50" by simp
  have a1: "algorithm ?drained = TOKEN_BUCKET" using f(1) by simp
  have m1: "maxRequests ?drained = real 49" using h2 by simp
  have w1: "0 < windowMs ?drained" by (simp add: f(2))
  have e1: "real_of_int 100 * real 49 = windowMs ?drained" by (simp add: f(2))
  have h8: "(1000::int) \<noteq> 0" by simp
  have rf0: "recordFor ?drained ctx0 (1000 + 100) = ?rec" by (rule recordFor_stored)
  have t0': "tokens ?rec = Some 0" by simp
  have l0: "lastRefill ?rec = Some 1000" by simp
  have "refillAfter ?drained 100 = dbl (dbl (1 / 49) * 49)"
    by (simp add: refillAfter_def f(2) f(3))
  then have ne: "refillAfter ?drained 100 \<noteq> 1" by (simp only: refill_49) simp
  have e: "(1000::int) + 100 = 1100" by simp
  have "fst (burst 2 (1000 + 100) ctx0 ?drained) = [refillAfter ?drained 100 = 1, False]"
    by (rule drained_bucket_wait [OF a1 m1 h3 h4 w1 e1 h8 rf0 t0' l0])
  then have after: "fst (burst 2 1100 ctx0 (snd (burst 50 1000 ctx0 ?lim))) = [False, False]"
    using ne by (simp only: fb(2) [unfolded e50] e simp_thms)
  from h7 fb(1) [unfolded e50] after show ?thesis by (intro conjI)
qed

section \<open>Rate limiter: a denied request\<close>

lemma filter_later_window:
  assumes "a \<le> b"
  shows "filter (\<lambda>ts. real_of_int ts > b) (filter (\<lambda>ts. real_of_int ts > a) xs)
           = filter (\<lambda>ts. real_of_int ts > b) xs"
proof -
  have "filter (\<lambda>ts. real_of_int ts > b) (filter (\<lambda>ts. real_of_int ts > a) xs)
      = filter (\<lambda>ts. real_of_int ts > a \<and> real_of_int ts > b) xs"
    by (simp only: filter_filter)
  also have "\<dots> = filter (\<lambda>ts. real_of_int ts > b) xs"
    using assms by (intro filter_cong) auto
  finally show ?thesis .
qed

lemma slidingWindow_after_filter:
  assumes "now \<le> now'"
  shows "slidingWindow rl
           (r\<lparr>timestamps := filter (\<lambda>ts. real_of_int ts > dbl (real_of_int now - windowMs rl))
                                  (timestamps r)\<rparr>) now'
         = slidingWindow rl r now'"
proof -
  from assms have "real_of_int now - windowMs rl \<le> real_of_int now' - windowMs rl" by simp
  then have "dbl (real_of_int now - windowMs rl) \<le> dbl (real_of_int now' - windowMs rl)"
    by (rule dbl_mono)
  from filter_later_window [OF this, of "timestamps r"]
  show ?thesis by (simp add: slidingWindow_def Let_def)
qed

lemma applyAlgorithm_config_cong:
  assumes "algorithm rl' = algorithm rl" and "windowMs rl' = windowMs rl"
    and "maxRequests rl' = maxRequests rl"
  shows "applyAlgorithm rl' r now = applyAlgorithm rl r now"
  using assms
  by (simp add: applyAlgorithm_def fixedWindow_def slidingWindow_def tokenBucket_def
      leakyBucket_def split: RateLimitAlgorithm.splits)

text \<open>
  C10, as the code has it. When \<open>allowRequest\<close> returns false, nothing of the
  limiter changes but the record of the key, and that record is the one the call
  found (or created) with only the time-based update applied, field for field: for
  the fixed window the record itself, or the record restarted if the window had
  expired; for the sliding window the record with the expired timestamps dropped
  and none appended; for the token bucket the record with the refilled amount,
  nothing taken off, and \<open>lastRefill\<close> moved to the call; for the leaky bucket the
  record with the leaked-down level, nothing added, and \<open>lastRefill\<close> moved to the
  call. With a positive capacity, a denied fixed-window call leaves the limiter as
  it was, and after a denied sliding-window call every later call for the key
  returns what it would have returned without it, decision and state.
\<close>

theorem denied_request_consumes_no_quota:
  assumes "fst (allowRequest now context rl) = False"
    and "r = recordFor rl context now"
  shows "\<exists>r'. snd (allowRequest now context rl)
                 = rl\<lparr>records := (records rl)(keyGenerator rl context \<mapsto> r')\<rparr>
     \<and> (algorithm rl = FIXED_WINDOW \<longrightarrow>
          r' = (if real_of_int now \<ge> resetTime r
                then r\<lparr>count := 0, resetTime := dbl (real_of_int now + windowMs rl)\<rparr>
                else r))
     \<and> (algorithm rl = SLIDING_WINDOW \<longrightarrow>
          r' = r\<lparr>timestamps :=
                   filter (\<lambda>ts. real_of_int ts > dbl (real_of_int now - windowMs rl))
                          (timestamps r)\<rparr>)
     \<and> (algorithm rl = TOKEN_BUCKET \<longrightarrow>
          r' = r\<lparr>tokens := Some (min (maxRequests rl)
                   (dbl (orDefault (tokens r) 0
                         + dbl (dbl (real_of_int (now - orDefault (lastRefill r) now)
                                     / windowMs rl) * maxRequests rl)))),
                 lastRefill := Some now\<rparr>)
     \<and> (algorithm rl = LEAKY_BUCKET \<longrightarrow>
          r' = r\<lparr>count := max 0
                   (dbl (count r
                         - dbl (dbl (real_of_int (now - orDefault (lastRefill r) now)
                                     / windowMs rl) * maxRequests rl))),
                 lastRefill := Some now\<rparr>)
     \<and> (algorithm rl = FIXED_WINDOW \<and> 0 < maxRequests rl \<longrightarrow>
          snd (allowRequest now context rl) = rl)
     \<and> (algorithm rl = SLIDING_WINDOW \<and> 0 < maxRequests rl \<and> now \<le> now' \<longrightarrow>
          allowRequest now' context (snd (allowRequest now context rl))
            = allowRequest now' context rl)"
proof -
  let ?k = "keyGenerator rl context"
  let ?r' = "snd (applyAlgorithm rl r now)"
  let ?rl' = "rl\<lparr>records := (records rl)(?k \<mapsto> ?r')\<rparr>"
  from assms have denied: "fst (applyAlgorithm rl r now) = False"
    by (simp add: allowRequest_unfold)
  have st: "snd (allowRequest now context rl) = ?rl'"
    using assms(2) by (simp add: allowRequest_unfold)
  have fixed: "?r' = (if real_of_int now \<ge> resetTime r
        then r\<lparr>count := 0, resetTime := dbl (real_of_int now + windowMs rl)\<rparr> else r)"
    if "algorithm rl = FIXED_WINDOW"
    using that denied
    by (auto simp: applyAlgorithm_def fixedWindow_def Let_def split: if_splits)
  have sliding: "?r' = r\<lparr>timestamps :=
        filter (\<lambda>ts. real_of_int ts > dbl (real_of_int now - windowMs rl)) (timestamps r)\<rparr>"
    if "algorithm rl = SLIDING_WINDOW"
    using that denied
    by (auto simp: applyAlgorithm_def slidingWindow_def Let_def split: if_splits)
  have token: "?r' = r\<lparr>tokens := Some (min (maxRequests rl)
        (dbl (orDefault (tokens r) 0
              + dbl (dbl (real_of_int (now - orDefault (lastRefill r) now) / windowMs rl)
                     * maxRequests rl)))),
      lastRefill := Some now\<rparr>"
    if "algorithm rl = TOKEN_BUCKET"
    using that denied
    by (auto simp: applyAlgorithm_def tokenBucket_def Let_def split: if_splits)
  have leaky: "?r' = r\<lparr>count := max 0
        (dbl (count r
              - dbl (dbl (real_of_int (now - orDefault (lastRefill r) now) / windowMs rl)
                     * maxRequests rl))),
      lastRefill := Some now\<rparr>"
    if "algorithm rl = LEAKY_BUCKET"
    using that denied
    by (auto simp: applyAlgorithm_def leakyBucket_def Let_def split: if_splits)
  have stored: "records rl ?k = Some r"
    if pos: "0 < maxRequests rl"
      and alg: "algorithm rl = FIXED_WINDOW \<or> algorithm rl = SLIDING_WINDOW"
  proof (cases "records rl ?k")
    case None
    with assms(2) have "r = createRecord rl now" by (simp add: recordFor_def)
    with denied pos alg show ?thesis
      by (auto simp: applyAlgorithm_def fixedWindow_def slidingWindow_def createRecord_def
          Let_def split: if_splits)
  next
    case (Some r0)
    with assms(2) show ?thesis by (simp add: recordFor_def)
  qed
  have same: "snd (allowRequest now context rl) = rl"
    if "algorithm rl = FIXED_WINDOW \<and> 0 < maxRequests rl"
  proof -
    from that have alg: "algorithm rl = FIXED_WINDOW" and pos: "0 < maxRequests rl"
      by simp_all
    from denied alg pos have "\<not> real_of_int now \<ge> resetTime r"
      by (auto simp: applyAlgorithm_def fixedWindow_def Let_def split: if_splits)
    with fixed [OF alg] have "?r' = r" by simp
    moreover from stored [OF pos] alg have "records rl ?k = Some r" by simp
    ultimately have "(records rl)(?k \<mapsto> ?r') = records rl"
      by (simp add: fun_upd_idem)
    then show ?thesis by (simp add: st)
  qed
  have later: "allowRequest now' context (snd (allowRequest now context rl))
      = allowRequest now' context rl"
    if "algorithm rl = SLIDING_WINDOW \<and> 0 < maxRequests rl \<and> now \<le> now'"
  proof -
    from that have alg: "algorithm rl = SLIDING_WINDOW" and pos: "0 < maxRequests rl"
      and le: "now \<le> now'" by simp_all
    from stored [OF pos] alg have old: "recordFor rl context now' = r"
      by (simp add: recordFor_def)
    have new: "recordFor ?rl' context now' = ?r'" by (rule recordFor_stored)
    have "applyAlgorithm ?rl' ?r' now' = applyAlgorithm rl ?r' now'"
      by (rule applyAlgorithm_config_cong) simp_all
    also have "\<dots> = slidingWindow rl ?r' now'" using alg by (simp add: applyAlgorithm_def)
    also have "\<dots> = slidingWindow rl r now'"
      by (simp only: sliding [OF alg] slidingWindow_after_filter [OF le])
    also have "\<dots> = applyAlgorithm rl r now'" using alg by (simp add: applyAlgorithm_def)
    finally have ap: "applyAlgorithm ?rl' ?r' now' = applyAlgorithm rl r now'" .
    have "allowRequest now' context ?rl'
        = (fst (applyAlgorithm rl r now'),
           ?rl'\<lparr>records := (records ?rl')(keyGenerator ?rl' context \<mapsto>
                     snd (applyAlgorithm rl r now'))\<rparr>)"
      by (simp only: allowRequest_unfold [of now' "context" ?rl'] new ap)
    also have "\<dots> = allowRequest now' context rl"
      by (simp add: allowRequest_unfold [of now' "context" rl] old)
    finally show ?thesis by (simp only: st)
  qed
  from st fixed sliding token leaky same later show ?thesis by blast
qed

text \<open>
  A limiter of capacity 1 per minute, after one admitted request at time 60000, for
  each of the four algorithms; \<open>ctx0\<close> is the request.
\<close>

definition rlConfig :: "RateLimitAlgorithm \<Rightarrow> RateLimitConfig" where
  "rlConfig a =
     \<lparr>cfg_algorithm = Some a, cfg_windowMs = Some 60000, cfg_maxRequests = Some 1,
      cfg_keyGenerator = None\<rparr>"

definition rlUsed :: "RateLimitAlgorithm \<Rightarrow> RateLimiter" where
  "rlUsed a = snd (allowRequest 60000 ctx0 (newRateLimiter (rlConfig a)))"

lemmas rl_eval =
  allowRequest_unfold recordFor_def applyAlgorithm_def fixedWindow_def slidingWindow_def
  tokenBucket_def leakyBucket_def createRecord_def newRateLimiter_def rlConfig_def
  orDefault_def ctx0_def Let_def dbl_numeral

lemma rlUsed_records:
  "records (rlUsed FIXED_WINDOW) ''/api/v1/users''
     = Some \<lparr>count = 1, resetTime = 120000, timestamps = [], tokens = Some 1,
             lastRefill = Some 60000\<rparr>"
  "records (rlUsed SLIDING_WINDOW) ''/api/v1/users''
     = Some \<lparr>count = 1, resetTime = 120000, timestamps = [60000], tokens = Some 1,
             lastRefill = Some 60000\<rparr>"
  "records (rlUsed TOKEN_BUCKET) ''/api/v1/users''
     = Some \<lparr>count = 0, resetTime = 120000, timestamps = [], tokens = Some 0,
             lastRefill = Some 60000\<rparr>"
  "records (rlUsed LEAKY_BUCKET) ''/api/v1/users''
     = Some \<lparr>count = 1, resetTime = 120000, timestamps = [], tokens = Some 1,
             lastRefill = Some 60000\<rparr>"
  by (simp_all add: rlUsed_def rl_eval)

lemma rlUsed_config:
  "algorithm (rlUsed a) = a" "windowMs (rlUsed a) = 60000" "maxRequests (rlUsed a) = 1"
  "keyGenerator (rlUsed a) ctx0 = ''/api/v1/users''"
  by (simp_all add: rlUsed_def allowRequest_unfold newRateLimiter_def rlConfig_def
      orDefault_def ctx0_def)

lemma rlUsed_denied:
  "fst (allowRequest 60000 ctx0 (rlUsed FIXED_WINDOW)) = False"
  "fst (allowRequest 60000 ctx0 (rlUsed SLIDING_WINDOW)) = False"
  "fst (allowRequest 60000 ctx0 (rlUsed TOKEN_BUCKET)) = False"
  "fst (allowRequest 60000 ctx0 (rlUsed LEAKY_BUCKET)) = False"
  by (simp_all add: allowRequest_unfold recordFor_def rlUsed_config rlUsed_records
      applyAlgorithm_def fixedWindow_def slidingWindow_def tokenBucket_def leakyBucket_def
      orDefault_def Let_def)

theorem denied_request_consumes_no_quota_witness:
  "fst (allowRequest 60000 ctx0 (rlUsed FIXED_WINDOW)) = False
   \<and> fst (allowRequest 60000 ctx0 (rlUsed SLIDING_WINDOW)) = False
   \<and> fst (allowRequest 60000 ctx0 (rlUsed TOKEN_BUCKET)) = False
   \<and> fst (allowRequest 60000 ctx0 (rlUsed LEAKY_BUCKET)) = False
   \<and> snd (allowRequest 60000 ctx0 (rlUsed FIXED_WINDOW)) = rlUsed FIXED_WINDOW
   \<and> records (snd (allowRequest 60000 ctx0 (rlUsed SLIDING_WINDOW))) ''/api/v1/users''
       = Some \<lparr>count = 1, resetTime = 120000, timestamps = [60000], tokens = Some 1,
               lastRefill = Some 60000\<rparr>
   \<and> allowRequest 130000 ctx0 (snd (allowRequest 60000 ctx0 (rlUsed SLIDING_WINDOW)))
       = allowRequest 130000 ctx0 (rlUsed SLIDING_WINDOW)
   \<and> records (snd (allowRequest 60000 ctx0 (rlUsed TOKEN_BUCKET))) ''/api/v1/users''
       = Some \<lparr>count = 0, resetTime = 120000, timestamps = [], tokens = Some 0,
               lastRefill = Some 60000\<rparr>
   \<and> records (snd (allowRequest 60000 ctx0 (rlUsed LEAKY_BUCKET))) ''/api/v1/users''
       = Some \<lparr>count = 1, resetTime = 120000, timestamps = [], tokens = Some 1,
               lastRefill = Some 60000\<rparr>"
proof -
  note d = rlUsed_denied
  have rf: "recordFor (rlUsed a) ctx0 60000 = the (records (rlUsed a) ''/api/v1/users'')"
    if "records (rlUsed a) ''/api/v1/users'' \<noteq> None" for a
    using that by (auto simp: recordFor_def rlUsed_config)
  from denied_request_consumes_no_quota [OF d(1) refl]
  have f: "snd (allowRequest 60000 ctx0 (rlUsed FIXED_WINDOW)) = rlUsed FIXED_WINDOW"
    by (auto simp: rlUsed_config)
  from denied_request_consumes_no_quota [OF d(2) refl, where now' = 130000]
  have s: "records (snd (allowRequest 60000 ctx0 (rlUsed SLIDING_WINDOW))) ''/api/v1/users''
      = Some \<lparr>count = 1, resetTime = 120000, timestamps = [60000], tokens = Some 1,
              lastRefill = Some 60000\<rparr>"
    and s': "allowRequest 130000 ctx0 (snd (allowRequest 60000 ctx0 (rlUsed SLIDING_WINDOW)))
      = allowRequest 130000 ctx0 (rlUsed SLIDING_WINDOW)"
    by (auto simp: rlUsed_config rlUsed_records rf)
  from denied_request_consumes_no_quota [OF d(3) refl]
  have t: "records (snd (allowRequest 60000 ctx0 (rlUsed TOKEN_BUCKET))) ''/api/v1/users''
      = Some \<lparr>count = 0, resetTime = 120000, timestamps = [], tokens = Some 0,
              lastRefill = Some 60000\<rparr>"
    by (auto simp: rlUsed_config rlUsed_records rf orDefault_def)
  from denied_request_consumes_no_quota [OF d(4) refl]
  have l: "records (snd (allowRequest 60000 ctx0 (rlUsed LEAKY_BUCKET))) ''/api/v1/users''
      = Some \<lparr>count = 1, resetTime = 120000, timestamps = [], tokens = Some 1,
              lastRefill = Some 60000\<rparr>"
    by (auto simp: rlUsed_config rlUsed_records rf orDefault_def)
  show ?thesis by (intro conjI d f s s' t l)
qed

section \<open>Rate limiter: a denied request and the next refill\<close>

text \<open>
  A call of the token bucket some time after the last refill, given the amount the
  refill leaves in the bucket.
\<close>

lemma tokenBucket_later:
  assumes "tokens r = Some a" and "lastRefill r = Some t" and "t \<noteq> 0"
    and "min (maxRequests rl) (dbl (a + refillAfter rl (now - t))) = v"
  shows "tokenBucket rl r now =
           (if v < 1 then (False, r\<lparr>tokens := Some v, lastRefill := Some now\<rparr>)
            else (True, r\<lparr>tokens := Some (dbl (v - 1)), lastRefill := Some now\<rparr>))"
proof -
  have "orDefault (tokens r) 0 = a" by (simp add: assms(1) orDefault_def)
  moreover have "now - orDefault (lastRefill r) now = now - t"
    using assms(3) by (simp add: assms(2) orDefault_def)
  ultimately show ?thesis
    using assms(4) by (simp add: tokenBucket_def refillAfter_def Let_def)
qed

text \<open>
  The refills of the default configuration (100 requests per 60000 ms) after 8, 592
  and 600 ms: 0.013333333333333334, 0.9866666666666666 and 1. Each quotient and each
  product is rounded on its own; so is the sum of the first two refills.
\<close>

lemma dbl_8_per_60000: "dbl (8 / 60000) = 2459565876494607 / 18446744073709551616"
proof -
  have "dbl (8 / 60000) = real_of_int 4919131752989214 / 2 ^ (13 + 52)"
    by (rule dbl_below_two) simp_all
  then show ?thesis by simp
qed

lemma dbl_refill_8: "dbl (2459565876494607 / 18446744073709551616 * 100) = 7686143364045647 / 576460752303423488"
proof -
  have "dbl (2459565876494607 / 18446744073709551616 * 100) = real_of_int 7686143364045647 / 2 ^ (7 + 52)"
    by (rule dbl_below_two) simp_all
  then show ?thesis by simp
qed

lemma dbl_592_per_60000: "dbl (592 / 60000) = 2843873044696889 / 288230376151711744"
proof -
  have "dbl (592 / 60000) = real_of_int 5687746089393778 / 2 ^ (7 + 52)"
    by (rule dbl_below_two) simp_all
  then show ?thesis by simp
qed

lemma dbl_refill_592: "dbl (2843873044696889 / 288230376151711744 * 100) = 4443551632338889 / 4503599627370496"
proof -
  have "dbl (2843873044696889 / 288230376151711744 * 100) = real_of_int 8887103264677778 / 2 ^ (1 + 52)"
    by (rule dbl_below_two) simp_all
  then show ?thesis by simp
qed

lemma dbl_refill_8_plus_592: "dbl (7686143364045647 / 576460752303423488 + 4443551632338889 / 4503599627370496) = 9007199254740991 / 9007199254740992"
proof -
  have "dbl (7686143364045647 / 576460752303423488 + 4443551632338889 / 4503599627370496) = real_of_int 9007199254740991 / 2 ^ (1 + 52)"
    by (rule dbl_below_two) simp_all
  then show ?thesis by simp
qed

lemma dbl_600_per_60000: "dbl (600 / 60000) = 5764607523034235 / 576460752303423488"
proof -
  have "dbl (600 / 60000) = real_of_int 5764607523034235 / 2 ^ (7 + 52)"
    by (rule dbl_below_two) simp_all
  then show ?thesis by simp
qed

lemma dbl_refill_600: "dbl (5764607523034235 / 576460752303423488 * 100) = 1"
proof -
  have "dbl (5764607523034235 / 576460752303423488 * 100) = real_of_int 4503599627370496 / 2 ^ (0 + 52)"
    by (rule dbl_below_two) simp_all
  then show ?thesis by simp
qed


lemma refillAfter_default_window:
  assumes "windowMs rl = 60000" and "maxRequests rl = 100"
  shows "refillAfter rl 8 = 7686143364045647 / 576460752303423488"
    and "refillAfter rl 592 = 4443551632338889 / 4503599627370496"
    and "refillAfter rl 600 = 1"
proof -
  have "refillAfter rl 8 = dbl (dbl (8 / 60000) * 100)"
    by (simp only: refillAfter_def assms of_int_numeral)
  then show "refillAfter rl 8 = 7686143364045647 / 576460752303423488"
    by (simp only: dbl_8_per_60000 dbl_refill_8)
  have "refillAfter rl 592 = dbl (dbl (592 / 60000) * 100)"
    by (simp only: refillAfter_def assms of_int_numeral)
  then show "refillAfter rl 592 = 4443551632338889 / 4503599627370496"
    by (simp only: dbl_592_per_60000 dbl_refill_592)
  have "refillAfter rl 600 = dbl (dbl (600 / 60000) * 100)"
    by (simp only: refillAfter_def assms of_int_numeral)
  then show "refillAfter rl 600 = 1"
    by (simp only: dbl_600_per_60000 dbl_refill_600)
qed

text \<open>
  Where a denied call changes a later decision. The default token bucket is drained at time 1000 (100 requests
  admitted, the next denied). Without further calls, the request at 1600 finds a
  refill of \<open>(600 / 60000) * 100 = 1\<close> and is admitted. With one denied call in
  between, at 1008, the bucket holds \<open>(8 / 60000) * 100\<close> from then on and the
  request at 1600 adds \<open>(592 / 60000) * 100\<close>: the sum is 0.9999999999999999, and
  the request is denied.
\<close>

theorem denied_request_delays_admission_counterexample:
  "fst (burst 101 1000 ctx0 (tbLimiter 60000 100)) = replicate 100 True @ [False]
   \<and> fst (allowRequest 1600 ctx0 (snd (burst 101 1000 ctx0 (tbLimiter 60000 100)))) = True
   \<and> fst (allowRequest 1008 ctx0 (snd (burst 101 1000 ctx0 (tbLimiter 60000 100)))) = False
   \<and> fst (allowRequest 1600 ctx0
         (snd (allowRequest 1008 ctx0 (snd (burst 101 1000 ctx0 (tbLimiter 60000 100))))))
       = False"
proof -
  let ?lim = "tbLimiter 60000 100"
  let ?x = "7686143364045647 / 576460752303423488 :: real"
  have w: "(60000::real) \<noteq> 0" and m: "(100::real) \<noteq> 0" by simp_all
  note f = tbLimiter_fields [OF w m]
  have h2: "maxRequests ?lim = real 100" by (simp add: f(3))
  have h4: "(100::nat) < 2 ^ 53" by simp
  note fb = fresh_bucket_burst [OF f(1) h2 h4 f(4) [of ctx0], of 1000]
  have e101: "Suc 100 = 101" by simp
  let ?rec = "(createRecord ?lim 1000)\<lparr>tokens := Some 0, lastRefill := Some 1000\<rparr>"
  let ?drained = "?lim\<lparr>records := (records ?lim)(keyGenerator ?lim ctx0 \<mapsto> ?rec)\<rparr>"
  have dr: "snd (burst 101 1000 ctx0 ?lim) = ?drained" by (rule fb(2) [unfolded e101])
  have a0: "algorithm ?drained = TOKEN_BUCKET" using f(1) by simp
  have w0: "windowMs ?drained = 60000" by (simp add: f(2))
  have m0: "maxRequests ?drained = 100" by (simp add: f(3))
  note ra0 = refillAfter_default_window [OF w0 m0]
  have rf0: "recordFor ?drained ctx0 now = ?rec" for now by (rule recordFor_stored)
  have tk0: "tokens ?rec = Some 0" and lr0: "lastRefill ?rec = Some 1000" by simp_all
  have t0: "(1000::int) \<noteq> 0" by simp
  have "dbl (refillAfter ?drained 8) = refillAfter ?drained 8"
    by (simp only: refillAfter_def dbl_idem)
  then have dx: "dbl ?x = ?x" by (simp only: ra0(1))
  have d600: "(1600::int) - 1000 = 600" and d8: "(1008::int) - 1000 = 8"
    and d592: "(1600::int) - 1008 = 592" by simp_all
  have v600: "min (maxRequests ?drained) (dbl (0 + refillAfter ?drained (1600 - 1000))) = 1"
    by (simp only: d600 ra0(3) m0 add_0 dbl_one)
  have v8: "min (maxRequests ?drained) (dbl (0 + refillAfter ?drained (1008 - 1000))) = ?x"
    by (simp only: d8 ra0(1) m0 add_0 dx; simp)
  have direct: "fst (tokenBucket ?drained ?rec 1600) = True"
    by (simp only: tokenBucket_later [OF tk0 lr0 t0 v600]; simp)
  have split1: "tokenBucket ?drained ?rec 1008
      = (False, ?rec\<lparr>tokens := Some ?x, lastRefill := Some 1008\<rparr>)"
    by (simp only: tokenBucket_later [OF tk0 lr0 t0 v8]; simp)
  let ?rec1 = "?rec\<lparr>tokens := Some ?x, lastRefill := Some 1008\<rparr>"
  let ?waited = "?drained\<lparr>records :=
      (records ?drained)(keyGenerator ?drained ctx0 \<mapsto> ?rec1)\<rparr>"
  have s1: "allowRequest 1008 ctx0 ?drained = (False, ?waited)"
    by (simp only: allowRequest_tokenBucket [OF a0] rf0 split1 fst_conv snd_conv)
  have a1: "algorithm ?waited = TOKEN_BUCKET" using f(1) by simp
  have w1: "windowMs ?waited = 60000" by (simp add: f(2))
  have m1: "maxRequests ?waited = 100" by (simp add: f(3))
  note ra1 = refillAfter_default_window [OF w1 m1]
  have rf1: "recordFor ?waited ctx0 1600 = ?rec1" by (rule recordFor_stored)
  have tk1: "tokens ?rec1 = Some ?x" and lr1: "lastRefill ?rec1 = Some 1008" by simp_all
  have t1: "(1008::int) \<noteq> 0" by simp
  have v592: "min (maxRequests ?waited) (dbl (?x + refillAfter ?waited (1600 - 1008)))
      = 9007199254740991 / 9007199254740992"
    by (simp only: d592 ra1(2) m1 dbl_refill_8_plus_592; simp)
  have split2: "fst (tokenBucket ?waited ?rec1 1600) = False"
    by (simp only: tokenBucket_later [OF tk1 lr1 t1 v592]; simp)
  have r1: "fst (allowRequest 1600 ctx0 ?drained) = True"
    by (simp only: allowRequest_tokenBucket [OF a0] rf0 direct fst_conv)
  have r2: "fst (allowRequest 1008 ctx0 ?drained) = False"
    by (simp only: s1 fst_conv)
  have r3: "fst (allowRequest 1600 ctx0 (snd (allowRequest 1008 ctx0 ?drained))) = False"
    by (simp only: s1 snd_conv allowRequest_tokenBucket [OF a1] rf1 split2 fst_conv)
  from fb(1) [unfolded e101] r1 r2 r3 show ?thesis
    by (simp only: dr simp_thms)
qed

section \<open>Plugin chain (\<open>PluginManager.ts\<close>)\<close>

text \<open>
  A hook's argument and result are JavaScript values of some type \<open>'v\<close>;
  \<open>None\<close> is \<open>undefined\<close>. A hook is called with the argument array and either
  returns (awaited, if it returns a promise) or throws. What a value shows as its
  \<open>type\<close> field is given by a function of the caller's: not an object with that
  field, a field that is no request type, or a request type.
\<close>

datatype PluginType = INTERCEPTOR | BUSINESS

datatype 'v hook_result = Returns "'v option" | Throws string

datatype type_field = NoTypeField | ForeignType | HasType RequestType

datatype errorStrategy = Continue | Stop | Throw

record 'v Plugin =
  plg_name :: string
  plg_enabled :: "bool option"
  plg_type :: "PluginType option"
  plg_priority :: "int option"
  plg_requestTypes :: "RequestType list option"
  plg_hooks :: "string \<Rightarrow> ('v option list \<Rightarrow> 'v hook_result) option"

text \<open>
  The plugin table is a JavaScript \<open>Map\<close>: keys in insertion order, and setting an
  existing key keeps its position.
\<close>

record 'v PluginManager =
  plugins :: "(string \<times> 'v Plugin) list"
  pm_errorStrategy :: errorStrategy

definition newPluginManager :: "errorStrategy \<Rightarrow> 'v PluginManager" where
  "newPluginManager es = \<lparr>plugins = [], pm_errorStrategy = es\<rparr>"

fun mapSet :: "string \<Rightarrow> 'a \<Rightarrow> (string \<times> 'a) list \<Rightarrow> (string \<times> 'a) list" where
  "mapSet k v [] = [(k, v)]"
| "mapSet k v ((k', v') # kvs) = (if k' = k then (k, v) # kvs else (k', v') # mapSet k v kvs)"

text \<open>\<open>register\<close>: fill in the defaults, then store under the name.\<close>

definition register :: "'v Plugin \<Rightarrow> 'v PluginManager \<Rightarrow> 'v PluginManager" where
  "register plugin pm =
     (let p1 = (if plg_enabled plugin = None then plugin\<lparr>plg_enabled := Some True\<rparr> else plugin);
          p2 = (if plg_type p1 = None then p1\<lparr>plg_type := Some BUSINESS\<rparr> else p1);
          p3 = (if plg_priority p2 = None
                then p2\<lparr>plg_priority := Some (if plg_type p2 = Some INTERCEPTOR then 0 else 100)\<rparr>
                else p2)
      in pm\<lparr>plugins := mapSet (plg_name p3) p3 (plugins pm)\<rparr>)"

text \<open>\<open>a.priority || 100\<close>: the sort key; an absent priority and the priority 0 give 100.\<close>

definition priorityKey :: "'v Plugin \<Rightarrow> int" where
  "priorityKey p = orDefault (plg_priority p) 100"

text \<open>
  The type filter of \<open>packages/core\<close>: a plugin with a non-empty \<open>requestTypes\<close>
  is skipped when the first argument is an object with a \<open>type\<close> field that is not
  in the list.
\<close>

definition skipsByRequestTypes ::
  "('v \<Rightarrow> type_field) \<Rightarrow> 'v Plugin \<Rightarrow> 'v option list \<Rightarrow> bool" where
  "skipsByRequestTypes typeOf plugin args =
     (case plg_requestTypes plugin of
        None \<Rightarrow> False
      | Some rts \<Rightarrow>
          length rts > 0 \<and>
          (case args of
             Some firstArg # _ \<Rightarrow>
               (case typeOf firstArg of
                  NoTypeField \<Rightarrow> False
                | ForeignType \<Rightarrow> True
                | HasType t \<Rightarrow> t \<notin> set rts)
           | _ \<Rightarrow> False))"

fun includesStr :: "string \<Rightarrow> string \<Rightarrow> bool" where
  "includesStr [] p = (p = [])"
| "includesStr (c # cs) p = (take (length p) (c # cs) = p \<or> includesStr cs p)"

text \<open>
  The type filter of \<open>src/core\<close>: a plugin named \<open>__...__\<close> is skipped when its
  name mentions one request kind and the first argument's \<open>type\<close> is another.
\<close>

definition skipsByName ::
  "('v \<Rightarrow> type_field) \<Rightarrow> 'v Plugin \<Rightarrow> 'v option list \<Rightarrow> bool" where
  "skipsByName typeOf plugin args =
     (take 2 (plg_name plugin) = ''__''
      \<and> length (plg_name plugin) \<ge> 2
      \<and> drop (length (plg_name plugin) - 2) (plg_name plugin) = ''__''
      \<and> (case args of
            Some firstArg # _ \<Rightarrow>
              (case typeOf firstArg of
                 NoTypeField \<Rightarrow> False
               | ForeignType \<Rightarrow>
                   includesStr (plg_name plugin) ''Fetch'' \<or> includesStr (plg_name plugin) ''XHR''
                   \<or> includesStr (plg_name plugin) ''WebSocket''
               | HasType t \<Rightarrow>
                   (includesStr (plg_name plugin) ''Fetch'' \<and> t \<noteq> FETCH)
                   \<or> (includesStr (plg_name plugin) ''XHR'' \<and> t \<noteq> XHR)
                   \<or> (includesStr (plg_name plugin) ''WebSocket'' \<and> t \<noteq> WEBSOCKET))
          | _ \<Rightarrow> False))"

text \<open>
  The loop of \<open>executeHook\<close> over the sorted plugins. A hook is called with
  \<open>[result, ...args.slice(1)]\<close> when the running value is defined and with \<open>args\<close>
  otherwise. \<open>Inl\<close> is the error rethrown under the \<open>throw\<close> strategy.
\<close>

fun runHooks ::
  "errorStrategy \<Rightarrow> ('v Plugin \<Rightarrow> 'v option list \<Rightarrow> bool) \<Rightarrow> string \<Rightarrow> 'v option list
     \<Rightarrow> 'v Plugin list \<Rightarrow> 'v option \<Rightarrow> string + 'v option" where
  "runHooks es skips hookName args [] result = Inr result"
| "runHooks es skips hookName args (plugin # rest) result =
     (case plg_hooks plugin hookName of
        None \<Rightarrow> runHooks es skips hookName args rest result
      | Some hook \<Rightarrow>
          if skips plugin args then runHooks es skips hookName args rest result
          else (case hook (if result \<noteq> None then result # drop 1 args else args) of
                  Returns hookResult \<Rightarrow>
                    runHooks es skips hookName args rest
                      (if hookResult \<noteq> None then hookResult else result)
                | Throws error \<Rightarrow>
                    (case es of
                       Stop \<Rightarrow> Inr result
                     | Throw \<Rightarrow> Inl error
                     | Continue \<Rightarrow> runHooks es skips hookName args rest result)))"

definition enabledPlugins :: "'v PluginManager \<Rightarrow> 'v Plugin list" where
  "enabledPlugins pm =
     sort_key priorityKey (filter (\<lambda>p. plg_enabled p \<noteq> Some False) (map snd (plugins pm)))"

definition firstArgument :: "'v option list \<Rightarrow> 'v option" where
  "firstArgument args = (case args of [] \<Rightarrow> None | a # _ \<Rightarrow> a)"

text \<open>\<open>executeHook\<close> of \<open>packages/core\<close> (the file with the error strategies).\<close>

definition executeHook ::
  "('v \<Rightarrow> type_field) \<Rightarrow> string \<Rightarrow> 'v option list \<Rightarrow> 'v PluginManager \<Rightarrow> string + 'v option" where
  "executeHook typeOf hookName args pm =
     runHooks (pm_errorStrategy pm) (skipsByRequestTypes typeOf) hookName args
       (enabledPlugins pm) (firstArgument args)"

text \<open>
  \<open>executeHook\<close> of \<open>src/core\<close>: the same sort and loop, the filter by name, and
  a thrown error is always logged and passed over.
\<close>

definition executeHookLegacy ::
  "('v \<Rightarrow> type_field) \<Rightarrow> string \<Rightarrow> 'v option list \<Rightarrow> 'v PluginManager \<Rightarrow> string + 'v option" where
  "executeHookLegacy typeOf hookName args pm =
     runHooks Continue (skipsByName typeOf) hookName args
       (enabledPlugins pm) (firstArgument args)"

section \<open>Plugin chain: execution order\<close>

text \<open>
  Plugins whose \<open>beforeRequest\<close> hook appends the plugin's name to the running
  value, a string; that value then lists the hooks in the order they ran.
\<close>

definition tracer :: "string \<Rightarrow> int option \<Rightarrow> PluginType option \<Rightarrow> string Plugin" where
  "tracer n prio ty =
     \<lparr>plg_name = n, plg_enabled = None, plg_type = ty, plg_priority = prio,
      plg_requestTypes = None,
      plg_hooks = (\<lambda>h. if h = ''beforeRequest''
                        then Some (\<lambda>args. case args of
                                     Some v # _ \<Rightarrow> Returns (Some (v @ ''<'' @ n @ ''>''))
                                   | _ \<Rightarrow> Returns None)
                        else None)\<rparr>"

definition noTypeField :: "string \<Rightarrow> type_field" where
  "noTypeField v = NoTypeField"

lemmas pm_eval =
  executeHook_def executeHookLegacy_def enabledPlugins_def firstArgument_def register_def
  newPluginManager_def priorityKey_def orDefault_def skipsByRequestTypes_def skipsByName_def
  tracer_def noTypeField_def Let_def

text \<open>
  C4. An interceptor plugin registered without a priority gets priority 0
  (\<open>register\<close>, and \<open>BaseInterceptorPlugin.priority = 0\<close>); the callbacks plugin of
  \<open>InterceptorManager\<close> has priority 50, commented "run after interceptors but
  before other business plugins". \<open>executeHook\<close> sorts by \<open>priority || 100\<close>, which
  reads priority 0 as 100: the priority-50 hook runs first and the priority-0 hook
  after it, in both versions of the file and in either registration order. With
  priorities 10 and 20 the order is 10 then 20 in either registration order.
\<close>

theorem priority_zero_runs_after_fifty:
  "executeHook noTypeField ''beforeRequest'' [Some '''']
     (register (tracer ''callbacks'' (Some 50) (Some BUSINESS))
       (register (tracer ''fetch'' None (Some INTERCEPTOR)) (newPluginManager Continue)))
     = Inr (Some ''<callbacks><fetch>'')
   \<and> executeHook noTypeField ''beforeRequest'' [Some '''']
       (register (tracer ''fetch'' (Some 0) (Some INTERCEPTOR))
         (register (tracer ''callbacks'' (Some 50) (Some BUSINESS)) (newPluginManager Continue)))
       = Inr (Some ''<callbacks><fetch>'')
   \<and> executeHookLegacy noTypeField ''beforeRequest'' [Some '''']
       (register (tracer ''callbacks'' (Some 50) (Some BUSINESS))
         (register (tracer ''fetch'' None (Some INTERCEPTOR)) (newPluginManager Continue)))
       = Inr (Some ''<callbacks><fetch>'')
   \<and> executeHook noTypeField ''beforeRequest'' [Some '''']
       (register (tracer ''b'' (Some 20) None)
         (register (tracer ''a'' (Some 10) None) (newPluginManager Continue)))
       = Inr (Some ''<a><b>'')
   \<and> executeHook noTypeField ''beforeRequest'' [Some '''']
       (register (tracer ''a'' (Some 10) None)
         (register (tracer ''b'' (Some 20) None) (newPluginManager Continue)))
       = Inr (Some ''<a><b>'')"
  by (simp add: pm_eval)

text \<open>
  The order the loop follows is ascending in the sort key, ties in registration
  order; it is ascending in the priorities themselves when none of them is 0 or
  absent.
\<close>

lemma enabledPlugins_sorted_by_key: "sorted (map priorityKey (enabledPlugins pm))"
  by (simp add: enabledPlugins_def)

lemma runHooks_returns_nothing:
  assumes "plg_hooks plugin hookName = Some hook" and "\<not> skips plugin args"
    and "hook (if result \<noteq> None then result # drop 1 args else args) = Returns None"
  shows "runHooks es skips hookName args (plugin # rest) result
           = runHooks es skips hookName args rest result"
  using assms by simp

lemma runHooks_returns_value:
  assumes "plg_hooks plugin hookName = Some hook" and "\<not> skips plugin args"
    and "hook (if result \<noteq> None then result # drop 1 args else args) = Returns (Some v)"
  shows "runHooks es skips hookName args (plugin # rest) result
           = runHooks es skips hookName args rest (Some v)"
  using assms by simp

section \<open>Regular expressions of the host\<close>

text \<open>
  \<open>Router\<close> hands its patterns to the JavaScript \<open>RegExp\<close>. This is that engine
  for the fragment the router's patterns use: literal characters, \<open>.\<close>, the anchors
  \<open>^\<close> and \<open>$\<close>, capturing groups, alternation and the greedy quantifiers
  \<open>*\<close>, \<open>+\<close>, \<open>?\<close>, without flags. Strings are sequences of 8-bit code
  units. A pattern source outside the fragment (classes, braces, lazy quantifiers,
  look-around, letter escapes) is reported as \<open>Unsupported\<close> and nothing is claimed
  about it.
\<close>

datatype rx =
  Chr char | Dot | Bol | Eol | Eps
  | Seq rx rx | Alt rx rx | Star rx | Opt rx | Group nat rx

datatype parse_error = SyntaxError | Unsupported

datatype atom_kind = Plain | Quantified | Assertion

definition closeSeq :: "(rx \<times> atom_kind) list \<Rightarrow> rx" where
  "closeSeq cur = foldl (\<lambda>acc a. Seq (fst a) acc) Eps cur"

definition closeAlts :: "rx list \<Rightarrow> (rx \<times> atom_kind) list \<Rightarrow> rx" where
  "closeAlts alts cur = foldl (\<lambda>acc a. Alt a acc) (closeSeq cur) alts"

definition identityEscapes :: string where
  "identityEscapes = CHR 0x5C # ''^$.*+?()[]{}|/''"

text \<open>
  The parser reads the source left to right. \<open>cur\<close> holds the terms of the
  alternative being read and \<open>alts\<close> the alternatives already closed, both newest
  first; \<open>stack\<close> holds the same for the enclosing groups, with the index of the
  group being read; \<open>n\<close> counts the groups opened so far.
\<close>

fun quantify ::
  "(rx \<Rightarrow> rx) \<Rightarrow> (rx \<times> atom_kind) list \<Rightarrow> parse_error + (rx \<times> atom_kind) list" where
  "quantify q [] = Inl SyntaxError"
| "quantify q ((a, Plain) # cur) = Inr ((q a, Quantified) # cur)"
| "quantify q ((a, Quantified) # cur) = Inl SyntaxError"
| "quantify q ((a, Assertion) # cur) = Inl SyntaxError"

fun parseRx ::
  "(rx list \<times> (rx \<times> atom_kind) list \<times> nat) list \<Rightarrow> rx list \<Rightarrow> (rx \<times> atom_kind) list
     \<Rightarrow> nat \<Rightarrow> string \<Rightarrow> parse_error + (rx \<times> nat)" where
  "parseRx stack alts cur n [] =
     (if stack = [] then Inr (closeAlts alts cur, n) else Inl SyntaxError)"
| "parseRx stack alts cur n (c # s) =
     (if c = CHR 0x5C then
        (case s of
           [] \<Rightarrow> Inl SyntaxError
         | e # s' \<Rightarrow>
             if e \<in> set identityEscapes then parseRx stack alts ((Chr e, Plain) # cur) n s'
             else Inl Unsupported)
      else if c = CHR ''('' then
        (case s of
           CHR ''?'' # _ \<Rightarrow> Inl Unsupported
         | _ \<Rightarrow> parseRx ((alts, cur, n) # stack) [] [] (Suc n) s)
      else if c = CHR '')'' then
        (case stack of
           [] \<Rightarrow> Inl SyntaxError
         | (alts', cur', g) # stack' \<Rightarrow>
             parseRx stack' alts' ((Group g (closeAlts alts cur), Plain) # cur') n s)
      else if c = CHR ''|'' then parseRx stack (closeSeq cur # alts) [] n s
      else if c = CHR ''*'' then
        (case quantify Star cur of Inl e \<Rightarrow> Inl e | Inr cur' \<Rightarrow> parseRx stack alts cur' n s)
      else if c = CHR ''+'' then
        (case quantify (\<lambda>a. Seq a (Star a)) cur of
           Inl e \<Rightarrow> Inl e | Inr cur' \<Rightarrow> parseRx stack alts cur' n s)
      else if c = CHR ''?'' then
        (case cur of
           (a, Quantified) # _ \<Rightarrow> Inl Unsupported
         | _ \<Rightarrow> (case quantify Opt cur of
                   Inl e \<Rightarrow> Inl e | Inr cur' \<Rightarrow> parseRx stack alts cur' n s))
      else if c = CHR ''.'' then parseRx stack alts ((Dot, Plain) # cur) n s
      else if c = CHR ''^'' then parseRx stack alts ((Bol, Assertion) # cur) n s
      else if c = CHR ''$'' then parseRx stack alts ((Eol, Assertion) # cur) n s
      else if c \<in> set ''[]{}'' then Inl Unsupported
      else parseRx stack alts ((Chr c, Plain) # cur) n s)"

text \<open>\<open>new RegExp(source)\<close>: the compiled pattern and its number of groups.\<close>

definition newRegExp :: "string \<Rightarrow> parse_error + (rx \<times> nat)" where
  "newRegExp source = parseRx [] [] [] 0 source"

text \<open>
  The matcher. A state is the position in the input, the input from there on, and
  the captures so far (\<open>None\<close> is \<open>undefined\<close>). \<open>ms r st\<close> lists the states in
  which a match of \<open>r\<close> from \<open>st\<close> can end, in the order backtracking tries them.
  A repetition resets the captures of its body before each round and gives up a round
  that consumed nothing; \<open>.\<close> matches any character but a line terminator.
\<close>

definition lineTerminator :: "char \<Rightarrow> bool" where
  "lineTerminator c = (c = CHR 0x0A \<or> c = CHR 0x0D)"

fun groupsOf :: "rx \<Rightarrow> nat list" where
  "groupsOf (Group g a) = g # groupsOf a"
| "groupsOf (Seq a b) = groupsOf a @ groupsOf b"
| "groupsOf (Alt a b) = groupsOf a @ groupsOf b"
| "groupsOf (Star a) = groupsOf a"
| "groupsOf (Opt a) = groupsOf a"
| "groupsOf _ = []"

definition clearCaps :: "rx \<Rightarrow> string option list \<Rightarrow> string option list" where
  "clearCaps a caps = foldl (\<lambda>cs g. cs[g := None]) caps (groupsOf a)"

type_synonym mstate = "nat \<times> string \<times> string option list"

function ms :: "rx \<Rightarrow> mstate \<Rightarrow> mstate list" where
  "ms (Chr c) st =
     (case fst (snd st) of
        [] \<Rightarrow> []
      | x # t \<Rightarrow> if x = c then [(Suc (fst st), t, snd (snd st))] else [])"
| "ms Dot st =
     (case fst (snd st) of
        [] \<Rightarrow> []
      | x # t \<Rightarrow> if lineTerminator x then [] else [(Suc (fst st), t, snd (snd st))])"
| "ms Bol st = (if fst st = 0 then [st] else [])"
| "ms Eol st = (if fst (snd st) = [] then [st] else [])"
| "ms Eps st = [st]"
| "ms (Seq a b) st = concat (map (ms b) (ms a st))"
| "ms (Alt a b) st = ms a st @ ms b st"
| "ms (Group g a) st =
     map (\<lambda>st'. (fst st', fst (snd st'),
                  (snd (snd st'))[g := Some (take (fst st' - fst st) (fst (snd st)))]))
         (ms a st)"
| "ms (Star a) st =
     concat (map (\<lambda>st'. if length (fst (snd st')) < length (fst (snd st))
                         then ms (Star a) st' else [])
                 (ms a (fst st, fst (snd st), clearCaps a (snd (snd st)))))
     @ [st]"
| "ms (Opt a) st =
     filter (\<lambda>st'. length (fst (snd st')) < length (fst (snd st)))
            (ms a (fst st, fst (snd st), clearCaps a (snd (snd st))))
     @ [st]"
  by pat_completeness auto
termination
  by (relation "measures [\<lambda>(r, st). size r, \<lambda>(r, st). length (fst (snd st))]") auto

text \<open>
  \<open>RegExp.prototype.exec\<close> without flags, which is what \<open>String.prototype.match\<close>
  calls: the leftmost start position with a match, and there the first match in
  backtracking order. The result is the match array: the matched text, then the
  captures.
\<close>

fun execAt :: "rx \<Rightarrow> nat \<Rightarrow> nat \<Rightarrow> string \<Rightarrow> string option list option" where
  "execAt r n p s =
     (case ms r (p, s, replicate n None) of
        st' # _ \<Rightarrow> Some (Some (take (fst st' - p) s) # snd (snd st'))
      | [] \<Rightarrow> (case s of [] \<Rightarrow> None | _ # t \<Rightarrow> execAt r n (Suc p) t))"

definition regexExec :: "rx \<times> nat \<Rightarrow> string \<Rightarrow> string option list option" where
  "regexExec re input = execAt (fst re) (snd re) 0 input"

section \<open>Router (\<open>src/features/Router.ts\<close>)\<close>

datatype RouteType = Redirect | Rewrite | Proxy

datatype pattern = StringPattern string | RegExpPattern "rx \<times> nat"

datatype target =
  TargetString string
  | TargetFunction "RequestContext \<Rightarrow> string option list \<Rightarrow> string"

text \<open>
  A rule as \<open>addRule\<close> stores it: \<open>enabled\<close>, \<open>type\<close> and \<open>weight\<close> carry the
  defaults unless the caller gave them. \<open>enabled\<close> is read through its truthiness.
\<close>

record RouteRule =
  rule_name :: string
  rule_pattern :: pattern
  rule_target :: target
  rule_weight :: "real option"
  rule_enabled :: bool
  rule_condition :: "(RequestContext \<Rightarrow> bool) option"
  rule_type :: "RouteType option"

record RouteMatch =
  rm_rule :: RouteRule
  rm_targetUrl :: string
  rm_matches :: "string option list"

type_synonym Router = "RouteRule list"

definition addRule :: "RouteRule \<Rightarrow> Router \<Rightarrow> Router" where
  "addRule rule rules = rules @ [rule]"

text \<open>\<open>String.prototype.replace(/\<dots>/g, to)\<close> with one character for another.\<close>

definition replaceChar :: "char \<Rightarrow> string \<Rightarrow> string \<Rightarrow> string" where
  "replaceChar c to s = concat (map (\<lambda>x. if x = c then to else [x]) s)"

text \<open>
  \<open>_matchPattern\<close>. A string pattern has every \<open>*\<close> replaced by \<open>.*\<close> and every
  \<open>?\<close> by \<open>.\<close>, is wrapped in \<open>^\<dots>$\<close> and compiled; nothing else in it is
  escaped. A \<open>RegExp\<close> is used as it is.
\<close>

definition matchPattern :: "string \<Rightarrow> pattern \<Rightarrow> parse_error + string option list option" where
  "matchPattern u p =
     (case p of
        StringPattern str \<Rightarrow>
          (let regexPattern = replaceChar (CHR ''?'') ''.'' (replaceChar (CHR ''*'') ''.*'' str)
           in case newRegExp (''^'' @ regexPattern @ ''$'') of
                Inl e \<Rightarrow> Inl e
              | Inr regex \<Rightarrow> Inr (regexExec regex u))
      | RegExpPattern regex \<Rightarrow> Inr (regexExec regex u))"

text \<open>
  \<open>String.prototype.replace\<close> with a global pattern that matches the literal text
  \<open>needle\<close> and a replacement string. In the replacement, \<open>$$\<close> stands for \<open>$\<close>,
  \<open>$&\<close> for the matched text, \<open>$`\<close> for the subject before the match and
  \<open>$'\<close> for the subject after it; the pattern has no groups, so every other
  \<open>$\<close> stands for itself.
\<close>

fun expandReplacement :: "string \<Rightarrow> string \<Rightarrow> string \<Rightarrow> string \<Rightarrow> string" where
  "expandReplacement [] matched pre post = []"
| "expandReplacement [c] matched pre post = [c]"
| "expandReplacement (c # d # t) matched pre post =
     (if c = CHR ''$'' \<and> d = CHR ''$'' then CHR ''$'' # expandReplacement t matched pre post
      else if c = CHR ''$'' \<and> d = CHR ''&'' then matched @ expandReplacement t matched pre post
      else if c = CHR ''$'' \<and> d = CHR 0x60 then pre @ expandReplacement t matched pre post
      else if c = CHR ''$'' \<and> d = CHR 0x27 then post @ expandReplacement t matched pre post
      else c # expandReplacement (d # t) matched pre post)"

function replaceAllFrom :: "string \<Rightarrow> string \<Rightarrow> string \<Rightarrow> string \<Rightarrow> string" where
  "replaceAllFrom needle replacement pre s =
     (if s = [] then []
      else if needle \<noteq> [] \<and> take (length needle) s = needle
      then expandReplacement replacement needle pre (drop (length needle) s)
           @ replaceAllFrom needle replacement (pre @ needle) (drop (length needle) s)
      else hd s # replaceAllFrom needle replacement (pre @ [hd s]) (tl s))"
  by pat_completeness auto
termination
  by (relation "measure (\<lambda>(needle, replacement, pre, s). length s)") auto

definition replaceAll :: "string \<Rightarrow> string \<Rightarrow> string \<Rightarrow> string" where
  "replaceAll needle replacement s = replaceAllFrom needle replacement [] s"

text \<open>The decimal digits of an array index, as template literals print it.\<close>

fun digitsOf :: "nat \<Rightarrow> string" where
  "digitsOf n =
     (if n < 10 then [''0123456789'' ! n]
      else digitsOf (n div 10) @ [''0123456789'' ! (n mod 10)])"

text \<open>
  \<open>_resolveTarget\<close>. A function target is called. In a string target, for each
  entry of the match array in turn, every occurrence of \<open>$\<close> followed by the entry's
  index is replaced, with the entry as the replacement string; an \<open>undefined\<close>
  entry is converted to the text \<open>undefined\<close>.
\<close>

definition placeholderStep :: "string \<Rightarrow> (nat \<times> string option) \<Rightarrow> string" where
  "placeholderStep result im =
     replaceAll (CHR ''$'' # digitsOf (fst im))
       (case snd im of None \<Rightarrow> ''undefined'' | Some m \<Rightarrow> m) result"

definition resolveTarget :: "target \<Rightarrow> RequestContext \<Rightarrow> string option list \<Rightarrow> string" where
  "resolveTarget tg context matches =
     (case tg of
        TargetFunction f \<Rightarrow> f context matches
      | TargetString t \<Rightarrow> foldl placeholderStep t (zip [0..<length matches] matches))"

text \<open>
  \<open>match\<close>: the rules in order. An error is the exception that \<open>new RegExp\<close> throws
  on a string pattern that does not compile; it leaves the loop.
\<close>

fun matchRules :: "RouteRule list \<Rightarrow> RequestContext \<Rightarrow> parse_error + RouteMatch option" where
  "matchRules [] context = Inr None"
| "matchRules (rule # rest) context =
     (if \<not> rule_enabled rule then matchRules rest context
      else if (case rule_condition rule of None \<Rightarrow> False | Some cond \<Rightarrow> \<not> cond context)
      then matchRules rest context
      else (case matchPattern (url context) (rule_pattern rule) of
              Inl e \<Rightarrow> Inl e
            | Inr None \<Rightarrow> matchRules rest context
            | Inr (Some matches) \<Rightarrow>
                Inr (Some \<lparr>rm_rule = rule,
                           rm_targetUrl = resolveTarget (rule_target rule) context matches,
                           rm_matches = matches\<rparr>)))"



section \<open>Router: concrete rules\<close>





text \<open>The pattern \<open>new RegExp('/api/v1/(.*)')\<close> of \<open>RouterBuilder.apiVersion\<close>.\<close>

definition apiV1 :: "rx \<times> nat" where
  "apiV1 =
     (Seq (Chr CHR ''/'') (Seq (Chr CHR ''a'') (Seq (Chr CHR ''p'') (Seq (Chr CHR ''i'')
      (Seq (Chr CHR ''/'') (Seq (Chr CHR ''v'') (Seq (Chr CHR ''1'') (Seq (Chr CHR ''/'')
      (Seq (Group 0 (Seq (Star Dot) Eps)) Eps)))))))), 1)"

lemma newRegExp_apiV1: "newRegExp ''/api/v1/(.*)'' = Inr apiV1"
  by (simp add: newRegExp_def apiV1_def closeAlts_def closeSeq_def identityEscapes_def)


section \<open>Router: the first applicable rule wins\<close>

text \<open>
  A rule applies to a request when it is enabled and its condition, if it has one,
  holds; it misses the request when it does not apply or its pattern does not match
  the url.
\<close>

definition ruleApplies :: "RouteRule \<Rightarrow> RequestContext \<Rightarrow> bool" where
  "ruleApplies rule context =
     (rule_enabled rule
      \<and> (case rule_condition rule of None \<Rightarrow> True | Some cond \<Rightarrow> cond context))"

definition ruleMisses :: "RouteRule \<Rightarrow> RequestContext \<Rightarrow> bool" where
  "ruleMisses rule context =
     (\<not> ruleApplies rule context
      \<or> matchPattern (url context) (rule_pattern rule) = Inr None)"

lemma matchRules_miss:
  "ruleMisses rule context \<Longrightarrow> matchRules (rule # rest) context = matchRules rest context"
  by (auto simp: ruleMisses_def ruleApplies_def split: option.splits)

lemma matchRules_hit:
  assumes "ruleApplies rule context"
    and "matchPattern (url context) (rule_pattern rule) = Inr (Some matches)"
  shows "matchRules (rule # rest) context =
           Inr (Some \<lparr>rm_rule = rule,
                      rm_targetUrl = resolveTarget (rule_target rule) context matches,
                      rm_matches = matches\<rparr>)"
  using assms by (auto simp: ruleApplies_def split: option.splits)





lemma matchRules_Some_first:
  assumes "matchRules rules context = Inr (Some m)"
  shows "\<exists>pre post. rules = pre @ rm_rule m # post
           \<and> (\<forall>r \<in> set pre. ruleMisses r context)
           \<and> ruleApplies (rm_rule m) context
           \<and> matchPattern (url context) (rule_pattern (rm_rule m)) = Inr (Some (rm_matches m))
           \<and> rm_targetUrl m = resolveTarget (rule_target (rm_rule m)) context (rm_matches m)"
  using assms
proof (induction rules)
  case Nil
  then show ?case by simp
next
  case (Cons p rules)
  show ?case
  proof (cases "ruleMisses p context")
    case True
    with Cons.prems have "matchRules rules context = Inr (Some m)"
      by (simp add: matchRules_miss del: matchRules.simps)
    from Cons.IH [OF this] obtain pre post where
      "rules = pre @ rm_rule m # post" "\<forall>r \<in> set pre. ruleMisses r context"
      "ruleApplies (rm_rule m) context"
      "matchPattern (url context) (rule_pattern (rm_rule m)) = Inr (Some (rm_matches m))"
      "rm_targetUrl m = resolveTarget (rule_target (rm_rule m)) context (rm_matches m)"
      by blast
    with True have "p # rules = (p # pre) @ rm_rule m # post
        \<and> (\<forall>r \<in> set (p # pre). ruleMisses r context)" by simp
    with \<open>ruleApplies (rm_rule m) context\<close>
      \<open>matchPattern (url context) (rule_pattern (rm_rule m)) = Inr (Some (rm_matches m))\<close>
      \<open>rm_targetUrl m = resolveTarget (rule_target (rm_rule m)) context (rm_matches m)\<close>
    show ?thesis by blast
  next
    case False
    then have ap: "ruleApplies p context"
      and nm: "matchPattern (url context) (rule_pattern p) \<noteq> Inr None"
      by (simp_all add: ruleMisses_def)
    from Cons.prems ap nm obtain matches where
      mp: "matchPattern (url context) (rule_pattern p) = Inr (Some matches)"
      by (auto simp: ruleApplies_def split: option.splits sum.splits if_splits)
    from matchRules_hit [OF ap mp, of rules] Cons.prems
    have m: "m = \<lparr>rm_rule = p, rm_targetUrl = resolveTarget (rule_target p) context matches,
                   rm_matches = matches\<rparr>" by simp
    have "p # rules = [] @ rm_rule m # rules" using m by simp
    moreover have "\<forall>r \<in> set []. ruleMisses r context" by simp
    ultimately show ?thesis using ap mp m by (metis RouteMatch.select_convs)
  qed
qed

text \<open>
  Every walk is one of the three: all rules miss, or there is a first rule that does
  not miss, and that rule applies and its pattern either matches or does not compile.
\<close>

lemma matchRules_first_decides:
  "(\<forall>r \<in> set rules. ruleMisses r context)
   \<or> (\<exists>pre rule post. rules = pre @ rule # post
         \<and> (\<forall>r \<in> set pre. ruleMisses r context)
         \<and> ruleApplies rule context
         \<and> ((\<exists>matches. matchPattern (url context) (rule_pattern rule) = Inr (Some matches))
              \<or> (\<exists>e. matchPattern (url context) (rule_pattern rule) = Inl e)))"
proof (cases "\<forall>r \<in> set rules. ruleMisses r context")
  case True
  then show ?thesis by simp
next
  case False
  then have "\<exists>r \<in> set rules. \<not> ruleMisses r context" by simp
  from split_list_first_prop [OF this]
  obtain pre rule post where d: "rules = pre @ rule # post"
    and n: "\<not> ruleMisses rule context"
    and p: "\<forall>r \<in> set pre. \<not> \<not> ruleMisses r context" by blast
  from n have ap: "ruleApplies rule context"
    and nm: "matchPattern (url context) (rule_pattern rule) \<noteq> Inr None"
    by (simp_all add: ruleMisses_def)
  from p have p': "\<forall>r \<in> set pre. ruleMisses r context" by simp
  from nm have "(\<exists>matches. matchPattern (url context) (rule_pattern rule) = Inr (Some matches))
      \<or> (\<exists>e. matchPattern (url context) (rule_pattern rule) = Inl e)"
    by (cases "matchPattern (url context) (rule_pattern rule)") auto
  with d p' ap show ?thesis by blast
qed

section \<open>Router: what \<open>route\<close> writes\<close>











section \<open>Router: string patterns as wildcards\<close>




lemma replaceChar_Nil [simp]: "replaceChar c to [] = []"
  by (simp add: replaceChar_def)





















section \<open>Router: placeholders in a string target\<close>








section \<open>Router: matching and rewriting\<close>












end
